theory Spec2Isabelle
  imports Main "HOL-Library.Word"
begin

unbundle bit_operations_syntax

section \<open>Machine types\<close>

type_synonym u8 = "8 word"
type_synonym u16 = "16 word"
type_synonym u32 = "32 word"
type_synonym u64 = "64 word"

text \<open>C's signed comparisons on an \<open>int\<close> held in a 32-bit word.\<close>

definition int_lt0 :: "u32 \<Rightarrow> bool" where
  "int_lt0 i = (sint i < 0)"

definition int_gt0 :: "u32 \<Rightarrow> bool" where
  "int_gt0 i = (0 < sint i)"

text \<open>The error numbers the code returns, by name.\<close>

datatype errno = EINTR | EIO | ENOMEM | EAGAIN | ENOSPC

section \<open>Positions and btree ids (btree\_iter.h)\<close>

text \<open>
  \<open>struct bpos\<close> and \<open>enum btree_id\<close> are declared in headers that are not part of
  the sources at hand. Only \<open>BTREE_ID_EXTENTS\<close> and \<open>BTREE_ID_INODES\<close> are named by
  the code; every other member of the enum is \<open>BTREE_ID_OTHER n\<close>.
\<close>

record bpos =
  inode :: u64
  offset :: u64
  snapshot :: u32

datatype btree_id = BTREE_ID_EXTENTS | BTREE_ID_INODES | BTREE_ID_OTHER nat

text \<open>
  \<open>btree_type_successor\<close>; \<open>bkey_successor\<close> (bkey.h, absent) is the parameter
  \<open>bkey_succ\<close>.
\<close>

definition btree_type_successor :: "(bpos \<Rightarrow> bpos) \<Rightarrow> btree_id \<Rightarrow> bpos \<Rightarrow> bpos" where
  "btree_type_successor bkey_succ bid pos =
     (if bid = BTREE_ID_INODES then pos\<lparr>inode := inode pos + 1, offset := 0\<rparr>
      else if bid \<noteq> BTREE_ID_EXTENTS then bkey_succ pos
      else pos)"

text \<open>
  Modelled from the spec: \<open>struct bkey\<close> (bkey.h is not among the sources at hand). A key
  of the extents tree is indexed by \<open>(inode, end offset)\<close> and carries a size field, in
  sectors; \<open>cached_dev_write\<close> builds one as
  \<open>KEY(inode, bio_end_sector(bio), bio_sectors(bio))\<close>. \<open>bkey_start_pos\<close> is the position
  the extent begins at: the end position moved back by the size. Only the two fields the
  successor position depends on are kept.
\<close>

record bkey =
  bkey_p :: bpos
  bkey_size :: u32

definition bkey_start_pos :: "bkey \<Rightarrow> bpos" where
  "bkey_start_pos k = (bkey_p k)\<lparr>offset := offset (bkey_p k) - ucast (bkey_size k)\<rparr>"

text \<open>
  The reading of the specification for the extents tree: the position moves forward by
  the size of the key.
\<close>

definition spec_extent_advance :: "bpos \<Rightarrow> u32 \<Rightarrow> bpos" where
  "spec_extent_advance pos ksize = pos\<lparr>offset := offset pos + ucast ksize\<rparr>"

section \<open>The btree node cache (btree\_cache.c)\<close>

subsection \<open>Six locks\<close>

text \<open>
  Modelled from the spec: the three-mode lock of a node (six.h is not among the sources at
  hand). \<open>read\<close> may be held many times, \<open>intent\<close> once and together with readers,
  \<open>write\<close> is exclusive and is taken by the holder of \<open>intent\<close> once no reader is left.
\<close>

record six_lock =
  readers :: nat
  intent_held :: bool
  write_held :: bool

datatype six_lock_type = SIX_LOCK_read | SIX_LOCK_intent | SIX_LOCK_write

definition six_trylock_intent :: "six_lock \<Rightarrow> six_lock option" where
  "six_trylock_intent l = (if intent_held l then None else Some (l\<lparr>intent_held := True\<rparr>))"

definition six_trylock_write :: "six_lock \<Rightarrow> six_lock option" where
  "six_trylock_write l =
     (if readers l = 0 \<and> \<not> write_held l then Some (l\<lparr>write_held := True\<rparr>) else None)"

definition six_unlock_write :: "six_lock \<Rightarrow> six_lock" where
  "six_unlock_write l = l\<lparr>write_held := False\<rparr>"

definition six_unlock_intent :: "six_lock \<Rightarrow> six_lock" where
  "six_unlock_intent l = l\<lparr>intent_held := False\<rparr>"

definition six_unlock_read :: "six_lock \<Rightarrow> six_lock" where
  "six_unlock_read l = l\<lparr>readers := readers l - 1\<rparr>"

definition six_lock_type :: "six_lock_type \<Rightarrow> six_lock \<Rightarrow> six_lock" where
  "six_lock_type t l =
     (case t of SIX_LOCK_read \<Rightarrow> l\<lparr>readers := readers l + 1\<rparr>
              | SIX_LOCK_intent \<Rightarrow> l\<lparr>intent_held := True\<rparr>
              | SIX_LOCK_write \<Rightarrow> l\<lparr>write_held := True\<rparr>)"

definition six_unlock_type :: "six_lock_type \<Rightarrow> six_lock \<Rightarrow> six_lock" where
  "six_unlock_type t l =
     (case t of SIX_LOCK_read \<Rightarrow> six_unlock_read l
              | SIX_LOCK_intent \<Rightarrow> six_unlock_intent l
              | SIX_LOCK_write \<Rightarrow> six_unlock_write l)"

definition six_lock_downgrade :: "six_lock \<Rightarrow> six_lock" where
  "six_lock_downgrade l = l\<lparr>intent_held := False, readers := readers l + 1\<rparr>"

subsection \<open>Nodes and the cache set\<close>

text \<open>The bits of \<open>b->flags\<close> that btree\_cache.c tests.\<close>

record btree_flags =
  node_dirty :: bool
  node_accessed :: bool
  node_write_in_flight :: bool
  node_write_error :: bool
  node_noevict :: bool
  node_read_error :: bool

definition no_flags :: btree_flags where
  "no_flags = \<lparr>node_dirty = False, node_accessed = False, node_write_in_flight = False,
               node_write_error = False, node_noevict = False, node_read_error = False\<rparr>"

text \<open>
  A key as btree\_cache.c uses it: whether \<open>bkey_extent_is_data\<close> holds of it, and the
  first u64 of its value, which is what \<open>PTR_HASH\<close> reads.
\<close>

record bkey_i =
  extent_is_data :: bool
  v_data0 :: u64

definition PTR_HASH :: "bkey_i \<Rightarrow> u64" where
  "PTR_HASH k = v_data0 k"

text \<open>
  \<open>struct btree\<close>: the fields btree\_cache.c reads or writes. \<open>has_data\<close> is
  \<open>b->data != NULL\<close>, \<open>write_blocked_empty\<close> is \<open>list_empty(&b->write_blocked)\<close>.
\<close>

record btree =
  key :: bkey_i
  level :: u8
  btree_id :: btree_id
  flags :: btree_flags
  written :: nat
  nsets :: nat
  has_data :: bool
  write_blocked_empty :: bool
  lock :: six_lock

text \<open>
  The fields of \<open>struct cache_set\<close> used by btree\_cache.c. Nodes live in the store
  \<open>nodes\<close> and are named by their address; \<open>heap_next\<close> is the next address
  \<open>kzalloc\<close> hands out. The rhashtable is a map from the hashed word to the node; the
  three lists are given head first. \<open>btree_roots\<close> is the array of \<open>BTREE_ID_NR\<close>
  root pointers, \<open>btree_cache_alloc_lock\<close> the task holding the cannibalize lock.
\<close>

record cache_set =
  nodes :: "nat \<Rightarrow> btree"
  heap_next :: nat
  btree_cache_table :: "u64 \<rightharpoonup> nat"
  btree_cache :: "nat list"
  btree_cache_freeable :: "nat list"
  btree_cache_freed :: "nat list"
  btree_cache_used :: u32
  btree_cache_reserve :: u32
  btree_roots :: "nat option list"
  btree_cache_alloc_lock :: "nat option"
  btree_pages :: u64
  btree_shrinker_disabled :: bool
  verify_btree_ondisk :: bool

subsection \<open>The reserve\<close>

text \<open>The test \<open>!c->btree_roots[0].b\<close>.\<close>

definition root0_absent :: "cache_set \<Rightarrow> bool" where
  "root0_absent c = (case btree_roots c of [] \<Rightarrow> True | r # _ \<Rightarrow> r = None)"

text \<open>One round of the loop over the roots.\<close>

definition reserve_step :: "cache_set \<Rightarrow> nat option \<Rightarrow> u32 \<Rightarrow> u32" where
  "reserve_step c r reserve =
     (case r of None \<Rightarrow> reserve
              | Some b \<Rightarrow> reserve + min 1 (ucast (level (nodes c b))) * 8)"

definition bch_recalc_btree_reserve :: "cache_set \<Rightarrow> cache_set" where
  "bch_recalc_btree_reserve c =
     (let reserve = 16;
          reserve = (if root0_absent c then reserve + 8 else reserve);
          reserve = fold (reserve_step c) (btree_roots c) reserve
      in c\<lparr>btree_cache_reserve := reserve\<rparr>)"

text \<open>The reserve of the specification: 16 plus \<open>min(1, level) * 8\<close> for each root present.\<close>

definition root_term :: "cache_set \<Rightarrow> nat option \<Rightarrow> u32" where
  "root_term c r = (case r of None \<Rightarrow> 0 | Some b \<Rightarrow> min 1 (ucast (level (nodes c b))) * 8)"

definition spec_btree_reserve :: "cache_set \<Rightarrow> u32" where
  "spec_btree_reserve c = 16 + sum_list (map (root_term c) (btree_roots c))"

text \<open>
  \<open>mca_can_free\<close>: \<open>max_t(int, 0, c->btree_cache_used - c->btree_cache_reserve)\<close>, the
  unsigned difference read as an \<open>int\<close>.
\<close>

definition mca_can_free :: "cache_set \<Rightarrow> u32" where
  "mca_can_free c =
     (let d = btree_cache_used c - btree_cache_reserve c in if int_gt0 d then d else 0)"

subsection \<open>Fresh objects\<close>

text \<open>A lock after \<open>six_lock_init\<close> and a \<open>struct btree\<close> as \<open>kzalloc\<close> returns it.\<close>

definition six_lock_init :: six_lock where
  "six_lock_init = \<lparr>readers = 0, intent_held = False, write_held = False\<rparr>"

definition zeroed_btree :: btree where
  "zeroed_btree = \<lparr>key = \<lparr>extent_is_data = False, v_data0 = 0\<rparr>, level = 0,
     btree_id = BTREE_ID_EXTENTS, flags = no_flags, written = 0, nsets = 0,
     has_data = False, write_blocked_empty = True, lock = six_lock_init\<rparr>"

text \<open>
  The cache set as \<open>bch_fs_btree_init\<close> finds it when it calls
  \<open>bch_recalc_btree_reserve\<close>: an empty table, empty lists and no root yet (shown with
  two root slots and four pages per node).
\<close>

definition init_cache_set :: cache_set where
  "init_cache_set = \<lparr>nodes = (\<lambda>_. zeroed_btree), heap_next = 0,
     btree_cache_table = Map.empty, btree_cache = [], btree_cache_freeable = [],
     btree_cache_freed = [], btree_cache_used = 0, btree_cache_reserve = 0,
     btree_roots = [None, None], btree_cache_alloc_lock = None, btree_pages = 4,
     btree_shrinker_disabled = False, verify_btree_ondisk = False\<rparr>"

subsection \<open>Node and list updates\<close>

datatype fault = BUG | SPIN

definition node_upd :: "nat \<Rightarrow> (btree \<Rightarrow> btree) \<Rightarrow> cache_set \<Rightarrow> cache_set" where
  "node_upd b f c = c\<lparr>nodes := (nodes c)(b := f (nodes c b))\<rparr>"

definition lock_upd :: "nat \<Rightarrow> (six_lock \<Rightarrow> six_lock) \<Rightarrow> cache_set \<Rightarrow> cache_set" where
  "lock_upd b f c = node_upd b (\<lambda>n. n\<lparr>lock := f (lock n)\<rparr>) c"

text \<open>\<open>list_del(&b->list)\<close>: the node leaves whichever of the three lists it is on.\<close>

definition list_del :: "nat \<Rightarrow> cache_set \<Rightarrow> cache_set" where
  "list_del b c =
     c\<lparr>btree_cache := removeAll b (btree_cache c),
       btree_cache_freeable := removeAll b (btree_cache_freeable c),
       btree_cache_freed := removeAll b (btree_cache_freed c)\<rparr>"

definition list_move_freed :: "nat \<Rightarrow> cache_set \<Rightarrow> cache_set" where
  "list_move_freed b c =
     (let c = list_del b c in c\<lparr>btree_cache_freed := b # btree_cache_freed c\<rparr>)"

definition list_move_freeable :: "nat \<Rightarrow> cache_set \<Rightarrow> cache_set" where
  "list_move_freeable b c =
     (let c = list_del b c in c\<lparr>btree_cache_freeable := b # btree_cache_freeable c\<rparr>)"

subsection \<open>Allocating and freeing node memory\<close>

text \<open>
  \<open>mca_data_free\<close>: the pages and the key tables are released, the count of nodes
  with memory drops by one and the node moves to the \<open>freed\<close> list.
\<close>

definition mca_data_free :: "cache_set \<Rightarrow> nat \<Rightarrow> cache_set" where
  "mca_data_free c b =
     (let c = node_upd b (\<lambda>n. n\<lparr>has_data := False\<rparr>) c;
          c = c\<lparr>btree_cache_used := btree_cache_used c - 1\<rparr>
      in list_move_freed b c)"

text \<open>
  The answers of the memory allocator during one call: \<open>kzalloc\<close>,
  \<open>__get_free_pages\<close> and \<open>bch_btree_keys_alloc\<close> succeed or not.
\<close>

record alloc_env =
  kzalloc_ok :: bool
  get_free_pages_ok :: bool
  keys_alloc_ok :: bool

definition mca_data_alloc :: "alloc_env \<Rightarrow> cache_set \<Rightarrow> nat \<Rightarrow> cache_set" where
  "mca_data_alloc env c b =
     (if get_free_pages_ok env \<and> keys_alloc_ok env then
        (let c = node_upd b (\<lambda>n. n\<lparr>has_data := True\<rparr>) c;
             c = c\<lparr>btree_cache_used := btree_cache_used c + 1\<rparr>
         in list_move_freeable b c)
      else
        (let c = node_upd b (\<lambda>n. n\<lparr>has_data := False\<rparr>) c
         in list_move_freed b c))"

definition mca_bucket_alloc :: "alloc_env \<Rightarrow> cache_set \<Rightarrow> nat option \<times> cache_set" where
  "mca_bucket_alloc env c =
     (if \<not> kzalloc_ok env then (None, c)
      else
        (let b = heap_next c;
             c = c\<lparr>nodes := (nodes c)(b := zeroed_btree), heap_next := Suc b\<rparr>;
             c = mca_data_alloc env c b
         in (if has_data (nodes c b) then Some b else None, c)))"

subsection \<open>The hash table\<close>

text \<open>
  \<open>rhashtable_remove_fast\<close> looks for the object in the chain of its current key and
  unlinks it if it is there.
\<close>

definition rhashtable_remove :: "cache_set \<Rightarrow> nat \<Rightarrow> (u64 \<rightharpoonup> nat)" where
  "rhashtable_remove c b =
     (let k = PTR_HASH (key (nodes c b)) in
      if btree_cache_table c k = Some b then (btree_cache_table c)(k := None)
      else btree_cache_table c)"

definition mca_hash_remove :: "cache_set \<Rightarrow> nat \<Rightarrow> fault + cache_set" where
  "mca_hash_remove c b =
     (if node_dirty (flags (nodes c b)) then Inl BUG
      else
        (let c = node_upd b (\<lambda>n. n\<lparr>nsets := 0\<rparr>) c;
             c = c\<lparr>btree_cache_table := rhashtable_remove c b\<rparr>;
             c = node_upd b (\<lambda>n. n\<lparr>key := (key n)\<lparr>v_data0 := 0\<rparr>\<rparr>) c
         in Inr c))"

text \<open>
  \<open>mca_hash_insert\<close>: \<open>True\<close> for the return value 0.
  \<open>rhashtable_lookup_insert_fast\<close> refuses a key that is in the table; \<open>rht_fail\<close>
  stands for any other error it may return.
\<close>

definition mca_hash_insert :: "bool \<Rightarrow> cache_set \<Rightarrow> nat \<Rightarrow> u8 \<Rightarrow> btree_id \<Rightarrow> bool \<times> cache_set" where
  "mca_hash_insert rht_fail c b lvl bid =
     (let c = node_upd b (\<lambda>n. n\<lparr>level := lvl, btree_id := bid\<rparr>) c;
          k = PTR_HASH (key (nodes c b))
      in
      if rht_fail \<or> btree_cache_table c k \<noteq> None then (False, c)
      else
        (let c = c\<lparr>btree_cache_table := (btree_cache_table c)(k \<mapsto> b)\<rparr>
         in (True, c\<lparr>btree_cache := b # btree_cache c\<rparr>)))"

definition mca_find :: "cache_set \<Rightarrow> bkey_i \<Rightarrow> nat option" where
  "mca_find c k = btree_cache_table c (PTR_HASH k)"

subsection \<open>Reaping\<close>

text \<open>
  Modelled from the spec: the node write started by \<open>mca_reap_notrace\<close> for a dirty
  node (\<open>bch_btree_node_write\<close>, btree\_io.c, is not among the sources at hand): the
  node is flushed through the write path and is clean afterwards.
\<close>

definition btree_node_write :: "btree \<Rightarrow> btree" where
  "btree_node_write n = n\<lparr>flags := (flags n)\<lparr>node_dirty := False, node_write_in_flight := True\<rparr>\<rparr>"

definition wait_on_write_in_flight :: "btree \<Rightarrow> btree" where
  "wait_on_write_in_flight n = n\<lparr>flags := (flags n)\<lparr>node_write_in_flight := False\<rparr>\<rparr>"

text \<open>
  \<open>mca_reap_notrace\<close>: \<open>True\<close> for the return value 0, with the intent and write locks
  of the node held; \<open>False\<close> for \<open>-ENOMEM\<close>, with the locks given back.
\<close>

definition mca_reap_notrace :: "cache_set \<Rightarrow> nat \<Rightarrow> bool \<Rightarrow> bool \<times> cache_set" where
  "mca_reap_notrace c b flush =
     (case six_trylock_intent (lock (nodes c b)) of
        None \<Rightarrow> (False, c)
      | Some l1 \<Rightarrow>
          (case six_trylock_write l1 of
             None \<Rightarrow> (False, lock_upd b (\<lambda>_. six_unlock_intent l1) c)
           | Some l2 \<Rightarrow>
               (let n = nodes c b; f = flags n in
                if node_write_error f \<or> node_noevict f
                   \<or> \<not> write_blocked_empty n
                   \<or> (\<not> flush \<and> (node_dirty f \<or> node_write_in_flight f))
                then (False, lock_upd b (\<lambda>_. six_unlock_intent (six_unlock_write l2)) c)
                else
                  (let c = lock_upd b (\<lambda>_. l2) c;
                       c = (if node_dirty f then node_upd b btree_node_write c else c);
                       c = node_upd b wait_on_write_in_flight c
                   in (True, c)))))"

definition mca_reap :: "cache_set \<Rightarrow> nat \<Rightarrow> bool \<Rightarrow> bool \<times> cache_set" where
  "mca_reap c b flush = mca_reap_notrace c b flush"

definition unlock_write_intent :: "nat \<Rightarrow> cache_set \<Rightarrow> cache_set" where
  "unlock_write_intent b c = lock_upd b six_unlock_intent (lock_upd b six_unlock_write c)"

subsection \<open>The shrinker\<close>

text \<open>
  \<open>struct shrink_control\<close> with \<open>gfp_io\<close> for \<open>sc->gfp_mask & __GFP_IO\<close>, and the
  results of \<open>mutex_trylock(&c->btree_cache_lock)\<close>: the attempt made after
  \<open>n\<close> nodes have been freed (0 for the attempt on entry).
\<close>

record shrink_control =
  nr_to_scan :: u64
  gfp_io :: bool
  mutex_trylock :: "nat \<Rightarrow> bool"

text \<open>
  The first loop, over the \<open>freeable\<close> list as it was on entry: the state, \<open>i\<close>,
  \<open>freed\<close> and \<open>touched\<close> go round the loop.
\<close>

fun scan_freeable :: "u64 \<Rightarrow> nat list \<Rightarrow> cache_set \<Rightarrow> u32 \<Rightarrow> u64 \<Rightarrow> u64
    \<Rightarrow> cache_set \<times> u64 \<times> u64" where
  "scan_freeable nr [] c i freed touched = (c, freed, touched)"
| "scan_freeable nr (b # bs) c i freed touched =
     (if nr \<le> freed then (c, freed, touched + 1)
      else if 3 < i + 1 \<and> fst (mca_reap_notrace c b False) then
        scan_freeable nr bs
          (unlock_write_intent b (mca_data_free (snd (mca_reap_notrace c b False)) b))
          (i + 1) (freed + 1) (touched + 1)
      else
        scan_freeable nr bs
          (if 3 < i + 1 then snd (mca_reap_notrace c b False) else c)
          (i + 1) freed (touched + 1))"

text \<open>
  \<open>list_move_tail(&c->btree_cache, &t->list)\<close> when \<open>t\<close> is not the list head: the
  list \<open>pre @ b # ts\<close> now starts at \<open>t\<close>, the head of \<open>ts\<close>.
\<close>

definition save_position :: "nat list \<Rightarrow> nat \<Rightarrow> nat list \<Rightarrow> nat list" where
  "save_position pre b ts = (if ts \<noteq> [] then ts @ pre @ [b] else pre @ [b])"

definition clear_btree_node_accessed :: "nat \<Rightarrow> cache_set \<Rightarrow> cache_set" where
  "clear_btree_node_accessed b c =
     node_upd b (\<lambda>n. n\<lparr>flags := (flags n)\<lparr>node_accessed := False\<rparr>\<rparr>) c"

text \<open>
  The second loop with its \<open>restart\<close>. The list \<open>c->btree_cache\<close> is \<open>pre @ rest\<close>,
  \<open>pre\<close> the entries this pass has been over; the field of \<open>c\<close> is written whenever
  the code changes the list. The value is the state, \<open>freed\<close> and \<open>touched\<close> at label
  \<open>out\<close>. Other threads that may run while the lock is dropped are not part of the
  model.
\<close>

function scan_lru :: "shrink_control \<Rightarrow> u64 \<Rightarrow> nat list \<Rightarrow> nat list \<Rightarrow> cache_set \<Rightarrow> u64 \<Rightarrow> u64
    \<Rightarrow> fault + cache_set \<times> u64 \<times> u64" where
  "scan_lru sc nr pre [] c freed touched = Inr (c, freed, touched)"
| "scan_lru sc nr pre (b # ts) c freed touched =
     (if nr \<le> freed then
        Inr (c\<lparr>btree_cache := save_position pre b ts\<rparr>, freed, touched + 1)
      else if \<not> node_accessed (flags (nodes c b)) \<and> fst (mca_reap c b False) then
        (case mca_hash_remove
                (mca_data_free ((snd (mca_reap c b False))
                                  \<lparr>btree_cache := save_position pre b ts\<rparr>) b) b of
           Inl f \<Rightarrow> Inl f
         | Inr c' \<Rightarrow>
             (if nr \<le> freed + 1 then Inr (unlock_write_intent b c', freed + 1, touched + 1)
              else if gfp_io sc \<or> mutex_trylock sc (unat (freed + 1)) then
                scan_lru sc nr [] (removeAll b (save_position pre b ts))
                  (unlock_write_intent b c') (freed + 1) (touched + 1)
              else Inr (unlock_write_intent b c', freed + 1, touched + 1)))
      else
        scan_lru sc nr (pre @ [b]) ts
          (clear_btree_node_accessed b
             (if node_accessed (flags (nodes c b)) then c else snd (mca_reap c b False)))
          freed (touched + 1))"
  by pat_completeness auto
termination
proof (relation "measures [\<lambda>(sc, nr, pre, rest, c, freed, touched). length pre + length rest,
                           \<lambda>(sc, nr, pre, rest, c, freed, touched). length rest]")
  show "wf (measures [\<lambda>(sc, nr, pre, rest, c, freed, touched). length pre + length rest,
                      \<lambda>(sc, nr, pre, rest, c, freed, touched). length rest])"
    by simp
next
  fix sc :: shrink_control and nr :: u64 and pre ts :: "nat list" and b :: nat
    and c :: cache_set and freed touched :: u64
  have "b \<in> set (save_position pre b ts)"
    by (simp add: save_position_def)
  then have "length (removeAll b (save_position pre b ts)) < length (save_position pre b ts)"
    by (rule length_removeAll_less)
  then have "length (removeAll b (save_position pre b ts)) < Suc (length pre + length ts)"
    by (simp add: save_position_def split: if_splits)
  then show "((sc, nr, [], removeAll b (save_position pre b ts), unlock_write_intent b c',
               freed + 1, touched + 1),
              sc, nr, pre, b # ts, c, freed, touched)
        \<in> measures [\<lambda>(sc, nr, pre, rest, c, freed, touched). length pre + length rest,
                      \<lambda>(sc, nr, pre, rest, c, freed, touched). length rest]" for c'
    by simp
next
  fix sc :: shrink_control and nr :: u64 and pre ts :: "nat list" and b :: nat
    and c :: cache_set and freed touched :: u64
  show "((sc, nr, pre @ [b], ts,
          clear_btree_node_accessed b
            (if node_accessed (flags (nodes c b)) then c else snd (mca_reap c b False)),
          freed, touched + 1),
         sc, nr, pre, b # ts, c, freed, touched)
        \<in> measures [\<lambda>(sc, nr, pre, rest, c, freed, touched). length pre + length rest,
                      \<lambda>(sc, nr, pre, rest, c, freed, touched). length rest]"
    by simp
qed

definition SHRINK_STOP :: u64 where
  "SHRINK_STOP = - 1"

text \<open>
  \<open>bch_mca_scan\<close>: the return value, and the state with the counters \<open>freed\<close>,
  \<open>touched\<close> and \<open>can_free\<close> as \<open>trace_bcache_mca_scan\<close> sees them.
\<close>

record scan_result =
  scan_ret :: u64
  scan_freed :: u64
  scan_touched :: u64
  scan_can_free :: u64
  scan_cs :: cache_set

definition bch_mca_scan :: "cache_set \<Rightarrow> shrink_control \<Rightarrow> fault + scan_result" where
  "bch_mca_scan c sc =
     (if btree_shrinker_disabled c then
        Inr \<lparr>scan_ret = SHRINK_STOP, scan_freed = 0, scan_touched = 0, scan_can_free = 0,
             scan_cs = c\<rparr>
      else if btree_cache_alloc_lock c \<noteq> None then
        Inr \<lparr>scan_ret = SHRINK_STOP, scan_freed = 0, scan_touched = 0, scan_can_free = 0,
             scan_cs = c\<rparr>
      else if \<not> gfp_io sc \<and> \<not> mutex_trylock sc 0 then
        Inr \<lparr>scan_ret = - 1, scan_freed = 0, scan_touched = 0, scan_can_free = 0,
             scan_cs = c\<rparr>
      else
        (let nr = nr_to_scan sc div btree_pages c;
             can_free = (scast (mca_can_free c) :: u64);
             nr = min nr can_free;
             (c1, freed, touched) = scan_freeable nr (btree_cache_freeable c) c 0 0 0
         in
         case scan_lru sc nr [] (btree_cache c1) c1 freed touched of
           Inl f \<Rightarrow> Inl f
         | Inr (c2, freed, touched) \<Rightarrow>
             Inr \<lparr>scan_ret = freed * btree_pages c2, scan_freed = freed,
                  scan_touched = touched, scan_can_free = can_free, scan_cs = c2\<rparr>))"

text \<open>\<open>bch_mca_count\<close>; the product is computed as \<open>unsigned long\<close>.\<close>

definition bch_mca_count :: "cache_set \<Rightarrow> u64" where
  "bch_mca_count c =
     (if btree_shrinker_disabled c then 0
      else if btree_cache_alloc_lock c \<noteq> None then 0
      else scast (mca_can_free c) * btree_pages c)"

subsection \<open>Allocating a node\<close>

text \<open>
  The loops of \<open>mca_alloc\<close> and \<open>mca_cannibalize\<close> that take the first node of a
  list that can be reaped.
\<close>

fun reap_first :: "cache_set \<Rightarrow> nat list \<Rightarrow> bool \<Rightarrow> nat option \<times> cache_set" where
  "reap_first c [] flush = (None, c)"
| "reap_first c (b # bs) flush =
     (if fst (mca_reap_notrace c b flush) then (Some b, snd (mca_reap_notrace c b flush))
      else reap_first (snd (mca_reap_notrace c b flush)) bs flush)"

text \<open>
  \<open>mca_cannibalize\<close>: one pass over the LRU list from its tail without flushing, then
  passes with flushing. A pass that reaps nothing leaves every node as it was, so the
  \<open>while (1)\<close> loop then never ends: \<open>SPIN\<close>.
\<close>

definition mca_cannibalize :: "cache_set \<Rightarrow> fault + nat \<times> cache_set" where
  "mca_cannibalize c =
     (case reap_first c (rev (btree_cache c)) False of
        (Some b, c) \<Rightarrow> Inr (b, c)
      | (None, c) \<Rightarrow>
          (case reap_first c (rev (btree_cache c)) True of
             (Some b, c) \<Rightarrow> Inr (b, c)
           | (None, c) \<Rightarrow> Inl SPIN))"

text \<open>Label \<open>out\<close> of \<open>mca_alloc\<close>.\<close>

definition mca_alloc_out :: "nat \<Rightarrow> cache_set \<Rightarrow> cache_set" where
  "mca_alloc_out b c = node_upd b (\<lambda>n. n\<lparr>flags := no_flags, written := 0, nsets := 0\<rparr>) c"

text \<open>Label \<open>out_unlock\<close>, with its two \<open>BUG_ON\<close>s.\<close>

definition mca_alloc_out_unlock :: "nat \<Rightarrow> cache_set \<Rightarrow> fault + nat option \<times> cache_set" where
  "mca_alloc_out_unlock b c =
     (let n = nodes c b in
      if extent_is_data (key n) \<and> PTR_HASH (key n) \<noteq> 0 then Inl BUG
      else if node_write_in_flight (flags n) then Inl BUG
      else Inr (Some b, mca_alloc_out b (list_del b c)))"

text \<open>Label \<open>err\<close>; \<open>None\<close> is \<open>ERR_PTR(-ENOMEM)\<close>.\<close>

definition mca_alloc_err :: "nat \<Rightarrow> cache_set \<Rightarrow> fault + nat option \<times> cache_set" where
  "mca_alloc_err current c =
     (if btree_cache_alloc_lock c = Some current then
        (case mca_cannibalize c of
           Inl f \<Rightarrow> Inl f
         | Inr (b, c) \<Rightarrow>
             (case mca_hash_remove (list_del b c) b of
                Inl f \<Rightarrow> Inl f
              | Inr c \<Rightarrow> Inr (Some b, mca_alloc_out b c)))
      else Inr (None, c))"

definition mca_alloc :: "nat \<Rightarrow> alloc_env \<Rightarrow> cache_set \<Rightarrow> fault + nat option \<times> cache_set" where
  "mca_alloc current env c =
     (case reap_first c (btree_cache_freeable c) False of
        (Some b, c) \<Rightarrow> mca_alloc_out_unlock b c
      | (None, c) \<Rightarrow>
          (case reap_first c (btree_cache_freed c) False of
             (Some b, c) \<Rightarrow>
               (let c = mca_data_alloc env c b in
                if has_data (nodes c b) then mca_alloc_out_unlock b c
                else mca_alloc_err current (unlock_write_intent b c))
           | (None, c) \<Rightarrow>
               (case mca_bucket_alloc env c of
                  (Some b, c) \<Rightarrow>
                    (case six_trylock_intent (lock (nodes c b)) of
                       None \<Rightarrow> Inl BUG
                     | Some l1 \<Rightarrow>
                         (case six_trylock_write l1 of
                            None \<Rightarrow> Inl BUG
                          | Some l2 \<Rightarrow> mca_alloc_out_unlock b (lock_upd b (\<lambda>_. l2) c)))
                | (None, c) \<Rightarrow> mca_alloc_err current c)))"

subsection \<open>Iterators, filling and getting a node\<close>

text \<open>
  Modelled from the spec: the part of \<open>struct btree_iter\<close> and of btree\_locking.h (not
  among the sources at hand) that \<open>bch_btree_node_fill\<close> and \<open>bch_btree_node_get\<close>
  use. The iterator holds a node and at most one lock per level; it takes read locks
  above \<open>locks_want\<close> and intent locks otherwise. \<open>btree_node_relock\<close> succeeds at
  once on a level that is still locked and otherwise takes the lock again if the node's
  lock sequence allows it, which is the answer \<open>ok\<close> of the environment.
\<close>

record btree_iter =
  iter_btree_id :: btree_id
  locks_want :: nat
  iter_nodes :: "nat \<Rightarrow> nat option"
  nodes_locked :: "nat \<Rightarrow> six_lock_type option"

definition btree_node_read_locked :: "btree_iter \<Rightarrow> nat \<Rightarrow> bool" where
  "btree_node_read_locked iter l = (nodes_locked iter l = Some SIX_LOCK_read)"

definition iter_lock_upd :: "btree_iter \<Rightarrow> nat \<Rightarrow> (six_lock \<Rightarrow> six_lock) \<Rightarrow> cache_set \<Rightarrow> cache_set" where
  "iter_lock_upd iter l f c = (case iter_nodes iter l of None \<Rightarrow> c | Some p \<Rightarrow> lock_upd p f c)"

definition btree_node_unlock :: "cache_set \<Rightarrow> btree_iter \<Rightarrow> nat \<Rightarrow> cache_set \<times> btree_iter" where
  "btree_node_unlock c iter l =
     (case nodes_locked iter l of
        None \<Rightarrow> (c, iter)
      | Some t \<Rightarrow> (iter_lock_upd iter l (six_unlock_type t) c,
                   iter\<lparr>nodes_locked := (nodes_locked iter)(l := None)\<rparr>))"

definition btree_lock_want :: "btree_iter \<Rightarrow> nat \<Rightarrow> six_lock_type" where
  "btree_lock_want iter l = (if locks_want iter < l then SIX_LOCK_read else SIX_LOCK_intent)"

definition btree_node_relock :: "bool \<Rightarrow> cache_set \<Rightarrow> btree_iter \<Rightarrow> nat
    \<Rightarrow> bool \<times> cache_set \<times> btree_iter" where
  "btree_node_relock ok c iter l =
     (if nodes_locked iter l \<noteq> None then (True, c, iter)
      else if ok then
        (True, iter_lock_upd iter l (six_lock_type (btree_lock_want iter l)) c,
         iter\<lparr>nodes_locked := (nodes_locked iter)(l \<mapsto> btree_lock_want iter l)\<rparr>)
      else (False, c, iter))"

text \<open>The first statement of the \<open>else\<close> branch of \<open>bch_btree_node_get\<close> and of the
  second half of \<open>bch_btree_node_fill\<close>: a read lock on the parent is dropped.\<close>

definition drop_parent_read_lock :: "cache_set \<Rightarrow> btree_iter \<Rightarrow> nat \<Rightarrow> cache_set \<times> btree_iter" where
  "drop_parent_read_lock c iter l =
     (if btree_node_read_locked iter (l + 1) then btree_node_unlock c iter (l + 1) else (c, iter))"

text \<open>
  What one pass through \<open>bch_btree_node_get\<close> learns from outside: the memory
  allocator, a failure of the rhashtable other than a duplicate key, whether
  \<open>bch_btree_node_read\<close> read the node without error, whether \<open>btree_node_lock\<close>
  got the lock, \<open>race_fault()\<close>, and whether the parent could be relocked.
\<close>

record get_env =
  alloc :: alloc_env
  rht_fail :: bool
  read_ok :: bool
  lock_ok :: bool
  race_fault :: bool
  relock_ok :: bool

definition bch_btree_node_read :: "get_env \<Rightarrow> cache_set \<Rightarrow> nat \<Rightarrow> cache_set" where
  "bch_btree_node_read env c b =
     (if read_ok env then c
      else node_upd b (\<lambda>n. n\<lparr>flags := (flags n)\<lparr>node_read_error := True\<rparr>\<rparr>) c)"

text \<open>
  The results of \<open>bch_btree_node_fill\<close>: the node; \<open>NULL\<close> after a lost race, where
  the model also names the node that went back to the freeable list; or an error pointer.
\<close>

datatype fill_result = Fill_node nat | Fill_raced nat | Fill_error errno

definition bch_btree_node_fill :: "nat \<Rightarrow> get_env \<Rightarrow> cache_set \<Rightarrow> btree_iter \<Rightarrow> bkey_i \<Rightarrow> u32
    \<Rightarrow> six_lock_type \<Rightarrow> fault + fill_result \<times> cache_set \<times> btree_iter" where
  "bch_btree_node_fill current env c iter k lvl lock_type =
     (case mca_alloc current (alloc env) c of
        Inl f \<Rightarrow> Inl f
      | Inr (None, c) \<Rightarrow> Inr (Fill_error ENOMEM, c, iter)
      | Inr (Some b, c) \<Rightarrow>
          (let c = node_upd b (\<lambda>n. n\<lparr>key := k\<rparr>) c in
           case mca_hash_insert (rht_fail env) c b (ucast lvl) (iter_btree_id iter) of
             (False, c) \<Rightarrow>
               (let c = node_upd b (\<lambda>n. n\<lparr>key := (key n)\<lparr>v_data0 := 0\<rparr>\<rparr>) c;
                    c = c\<lparr>btree_cache_freeable := b # btree_cache_freeable c\<rparr>;
                    c = unlock_write_intent b c
                in Inr (Fill_raced b, c, iter))
           | (True, c) \<Rightarrow>
               (let (c, iter) = drop_parent_read_lock c iter (unat lvl);
                    c = bch_btree_node_read env c b;
                    c = lock_upd b six_unlock_write c;
                    c = (if lock_type = SIX_LOCK_read then lock_upd b six_lock_downgrade c else c)
                in Inr (Fill_node b, c, iter))))"

text \<open>
  The end of \<open>bch_btree_node_get\<close>, from \<open>prefetch\<close> on, for the locked node \<open>b\<close>:
  \<open>Inl e\<close> is \<open>ERR_PTR(-e)\<close>. (The accessed bit is only set again when it is set.)
\<close>

definition node_get_tail :: "cache_set \<Rightarrow> btree_iter \<Rightarrow> nat \<Rightarrow> six_lock_type
    \<Rightarrow> (errno + nat) \<times> cache_set \<times> btree_iter" where
  "node_get_tail c iter b lock_type =
     (if node_read_error (flags (nodes c b))
      then (Inl EIO, lock_upd b (six_unlock_type lock_type) c, iter)
      else (Inr b, c, iter))"

text \<open>
  \<open>bch_btree_node_get\<close>. Every pass through label \<open>retry\<close> takes the next
  \<open>get_env\<close> of the list; \<open>None\<close> says that the call is still retrying when the list
  ends. \<open>max_depth\<close> is \<open>BTREE_MAX_DEPTH\<close>. A node found in the table is read as it is
  once the lock is held; a table entry that no longer agrees with the node stands for a
  node freed by another thread between lookup and lock.
\<close>

fun bch_btree_node_get :: "get_env list \<Rightarrow> nat \<Rightarrow> nat \<Rightarrow> cache_set \<Rightarrow> btree_iter \<Rightarrow> bkey_i \<Rightarrow> u32
    \<Rightarrow> six_lock_type \<Rightarrow> (fault + (errno + nat) \<times> cache_set \<times> btree_iter) option" where
  "bch_btree_node_get [] max_depth current c iter k lvl lock_type = None"
| "bch_btree_node_get (e # es) max_depth current c iter k lvl lock_type =
     (if max_depth \<le> unat lvl then Some (Inl BUG)
      else
        case mca_find c k of
          None \<Rightarrow>
            (case bch_btree_node_fill current e c iter k lvl lock_type of
               Inl f \<Rightarrow> Some (Inl f)
             | Inr (Fill_raced _, c', iter') \<Rightarrow>
                 bch_btree_node_get es max_depth current c' iter' k lvl lock_type
             | Inr (Fill_error er, c', iter') \<Rightarrow> Some (Inr (Inl er, c', iter'))
             | Inr (Fill_node b, c', iter') \<Rightarrow> Some (Inr (node_get_tail c' iter' b lock_type)))
        | Some b \<Rightarrow>
            (let c1 = fst (drop_parent_read_lock c iter (unat lvl));
                 iter1 = snd (drop_parent_read_lock c iter (unat lvl))
             in
             if \<not> lock_ok e then Some (Inr (Inl EINTR, c1, iter1))
             else
               (let c2 = lock_upd b (six_lock_type lock_type) c1 in
                if PTR_HASH (key (nodes c2 b)) \<noteq> PTR_HASH k
                   \<or> ucast (level (nodes c2 b)) \<noteq> lvl
                   \<or> race_fault e
                then
                  (let c3 = lock_upd b (six_unlock_type lock_type) c2;
                       r = btree_node_relock (relock_ok e) c3 iter1 (unat lvl + 1)
                   in
                   if fst r
                   then bch_btree_node_get es max_depth current (fst (snd r)) (snd (snd r))
                          k lvl lock_type
                   else Some (Inr (Inl EINTR, fst (snd r), snd (snd r))))
                else Some (Inr (node_get_tail c2 iter1 b lock_type)))))"

text \<open>
  What the two loops of the shrinker keep true, from a point where \<open>freed\<close> nodes have
  been freed in state \<open>c\<close> to a later point with \<open>freed'\<close> and \<open>c'\<close>: the count
  stays below \<open>nr\<close>, and \<open>btree_cache_used\<close> has dropped by the number of nodes freed
  in between. \<open>lru_ok\<close> says so of a result of the second loop, which must not be a
  fault.
\<close>

definition counters_after :: "cache_set \<Rightarrow> u64 \<Rightarrow> u64 \<Rightarrow> cache_set \<Rightarrow> u64 \<Rightarrow> bool" where
  "counters_after c freed nr c' freed' \<longleftrightarrow>
     unat freed \<le> unat freed' \<and> unat freed' \<le> unat nr
     \<and> btree_cache_used c' = btree_cache_used c - of_nat (unat freed' - unat freed)
     \<and> btree_cache_reserve c' = btree_cache_reserve c
     \<and> btree_pages c' = btree_pages c"

definition lru_ok :: "cache_set \<Rightarrow> u64 \<Rightarrow> u64 \<Rightarrow> fault + cache_set \<times> u64 \<times> u64 \<Rightarrow> bool" where
  "lru_ok c freed nr r =
     (case r of Inl _ \<Rightarrow> False | Inr (c', freed', _) \<Rightarrow> counters_after c freed nr c' freed')"

text \<open>
  A cache set with 20 nodes in memory and a reserve of 16: five nodes on the freeable list,
  three on the LRU list, all unlocked, clean and not accessed; and a request to scan 100
  pages that may block.
\<close>

definition idle_btree :: btree where
  "idle_btree = zeroed_btree\<lparr>has_data := True\<rparr>"

definition example_cache_set :: cache_set where
  "example_cache_set = \<lparr>nodes = (\<lambda>_. idle_btree), heap_next = 20,
     btree_cache_table = Map.empty, btree_cache = [1, 2, 3],
     btree_cache_freeable = [10, 11, 12, 13, 14],
     btree_cache_freed = [], btree_cache_used = 20, btree_cache_reserve = 16,
     btree_roots = [None, None], btree_cache_alloc_lock = None, btree_pages = 4,
     btree_shrinker_disabled = False, verify_btree_ondisk = False\<rparr>"

definition example_sc :: shrink_control where
  "example_sc = \<lparr>nr_to_scan = 100, gfp_io = True, mutex_trylock = (\<lambda>_. True)\<rparr>"

subsection \<open>The invariant of the hash table\<close>

text \<open>
  \<open>hash_inv\<close>: a node of the cache (an address \<open>kzalloc\<close> has handed out) is found
  by some lookup if and only if the first u64 of its key's value is not 0. To be kept by
  the operations it is taken together with: every table entry is filed under the current
  hashed word of an allocated node (\<open>table_wf\<close>); a node with a non-zero hashed word has
  an extent key (\<open>keys_wf\<close>); the three lists hold allocated nodes only (\<open>lists_wf\<close>).
  \<open>same_keys\<close> relates two states with the same table, heap and keys.
\<close>

definition hash_inv :: "cache_set \<Rightarrow> bool" where
  "hash_inv c \<longleftrightarrow>
     (\<forall>b. b < heap_next c \<longrightarrow>
        ((\<exists>k. mca_find c k = Some b) \<longleftrightarrow> PTR_HASH (key (nodes c b)) \<noteq> 0))"

definition table_wf :: "cache_set \<Rightarrow> bool" where
  "table_wf c \<longleftrightarrow>
     (\<forall>w b. btree_cache_table c w = Some b \<longrightarrow>
        b < heap_next c \<and> PTR_HASH (key (nodes c b)) = w)"

definition keys_wf :: "cache_set \<Rightarrow> bool" where
  "keys_wf c \<longleftrightarrow>
     (\<forall>b. b < heap_next c \<longrightarrow> PTR_HASH (key (nodes c b)) \<noteq> 0 \<longrightarrow>
        extent_is_data (key (nodes c b)))"

definition lists_set :: "cache_set \<Rightarrow> nat set" where
  "lists_set c = set (btree_cache c) \<union> set (btree_cache_freeable c) \<union> set (btree_cache_freed c)"

definition lists_wf :: "cache_set \<Rightarrow> bool" where
  "lists_wf c \<longleftrightarrow> (\<forall>b. b \<in> lists_set c \<longrightarrow> b < heap_next c)"

definition mca_inv :: "cache_set \<Rightarrow> bool" where
  "mca_inv c \<longleftrightarrow> hash_inv c \<and> table_wf c \<and> keys_wf c \<and> lists_wf c"

definition same_keys :: "cache_set \<Rightarrow> cache_set \<Rightarrow> bool" where
  "same_keys c c' \<longleftrightarrow>
     btree_cache_table c' = btree_cache_table c \<and> heap_next c' = heap_next c
     \<and> (\<forall>n. key (nodes c' n) = key (nodes c n))"

text \<open>The invariant holds of a result of the second loop of the shrinker.\<close>

definition lru_inv_ok :: "cache_set \<Rightarrow> fault + cache_set \<times> u64 \<times> u64 \<Rightarrow> bool" where
  "lru_inv_ok c r = (case r of Inl _ \<Rightarrow> True
                      | Inr (c', _, _) \<Rightarrow> mca_inv c' \<and> heap_next c' = heap_next c)"

text \<open>
  What the invariant says of a result of \<open>mca_alloc\<close>: the state satisfies it, and a
  node handed out is an allocated one whose hashed word is 0.
\<close>

definition alloc_post :: "fault + nat option \<times> cache_set \<Rightarrow> bool" where
  "alloc_post r =
     (case r of
        Inl _ \<Rightarrow> True
      | Inr (None, c') \<Rightarrow> mca_inv c'
      | Inr (Some b, c') \<Rightarrow>
          mca_inv c' \<and> b < heap_next c' \<and> PTR_HASH (key (nodes c' b)) = 0)"

text \<open>
  What the invariant says of a result of \<open>bch_btree_node_fill\<close> for the key \<open>k\<close>: the
  state satisfies it; a node returned is the one a lookup of \<open>k\<close> finds; after a lost
  race the node is on the freeable list, its hashed word is 0 and no lookup finds it.
\<close>

definition fill_post :: "bkey_i \<Rightarrow> fault + fill_result \<times> cache_set \<times> btree_iter \<Rightarrow> bool" where
  "fill_post k r =
     (case r of
        Inl _ \<Rightarrow> True
      | Inr (Fill_node b, c', _) \<Rightarrow> mca_inv c' \<and> mca_find c' k = Some b
      | Inr (Fill_raced b, c', _) \<Rightarrow>
          mca_inv c' \<and> PTR_HASH (key (nodes c' b)) = 0 \<and> (\<forall>k'. mca_find c' k' \<noteq> Some b)
          \<and> b \<in> set (btree_cache_freeable c')
      | Inr (Fill_error _, c', _) \<Rightarrow> mca_inv c')"

text \<open>The invariant holds of the state \<open>bch_btree_node_get\<close> returns with.\<close>

definition get_post :: "(fault + (errno + nat) \<times> cache_set \<times> btree_iter) option \<Rightarrow> bool" where
  "get_post r = (case r of Some (Inr x) \<Rightarrow> mca_inv (fst (snd x)) | _ \<Rightarrow> True)"

text \<open>The lock of node \<open>b\<close> taken in mode \<open>t\<close> and released again.\<close>

definition lock_and_unlock :: "six_lock_type \<Rightarrow> nat \<Rightarrow> cache_set \<Rightarrow> cache_set" where
  "lock_and_unlock t b c = lock_upd b (six_unlock_type t) (lock_upd b (six_lock_type t) c)"

text \<open>
  A search key, an iterator that holds a read lock on the parent (node 2, level 1), an
  environment in which the lock is obtained and the parent cannot be relocked, and two
  cache sets whose table has node 1 under the key: in the first the node has been freed
  in the meantime (its hashed word is 0), in the second it carries a read error.
\<close>

definition example_key :: bkey_i where
  "example_key = \<lparr>extent_is_data = True, v_data0 = 0x1001\<rparr>"

definition example_iter :: btree_iter where
  "example_iter = \<lparr>iter_btree_id = BTREE_ID_EXTENTS, locks_want = 0,
     iter_nodes = (\<lambda>_. None)(1 := Some 2), nodes_locked = (\<lambda>_. None)(1 := Some SIX_LOCK_read)\<rparr>"

definition example_get_env :: get_env where
  "example_get_env = \<lparr>alloc = \<lparr>kzalloc_ok = True, get_free_pages_ok = True, keys_alloc_ok = True\<rparr>,
     rht_fail = False, read_ok = True, lock_ok = True, race_fault = False, relock_ok = False\<rparr>"

definition stale_cache_set :: cache_set where
  "stale_cache_set = example_cache_set\<lparr>
     nodes := (nodes example_cache_set)
        (2 := idle_btree\<lparr>level := 1, lock := six_lock_init\<lparr>readers := 1\<rparr>\<rparr>),
     btree_cache_table := [0x1001 \<mapsto> 1]\<rparr>"

definition read_error_cache_set :: cache_set where
  "read_error_cache_set = example_cache_set\<lparr>
     nodes := (nodes example_cache_set)
        (1 := idle_btree\<lparr>key := example_key, flags := no_flags\<lparr>node_read_error := True\<rparr>\<rparr>,
         2 := idle_btree\<lparr>level := 1, lock := six_lock_init\<lparr>readers := 1\<rparr>\<rparr>),
     btree_cache_table := [0x1001 \<mapsto> 1]\<rparr>"

text \<open>
  The example cache set with node 1 in the hash table under the search key.
\<close>

definition hashed_cache_set :: cache_set where
  "hashed_cache_set = example_cache_set\<lparr>
     nodes := (nodes example_cache_set)(1 := idle_btree\<lparr>key := example_key\<rparr>),
     btree_cache_table := [0x1001 \<mapsto> 1]\<rparr>"

section \<open>Congestion (request.c)\<close>

text \<open>
  The fields of \<open>struct cache_set\<close> that request.c reads. \<open>congested\<close> is the
  \<open>atomic_t\<close> counter (an \<open>int\<close>); \<open>sectors_available\<close> stands for the value of
  the call \<open>sectors_available(c)\<close>; \<open>block_size\<close> is \<open>c->sb.block_size\<close>.
\<close>

record cache_set_req =
  congested_read_threshold_us :: u32
  congested_write_threshold_us :: u32
  congested_last_us :: u64
  congested :: u32
  sectors_available :: u64
  capacity :: u64
  block_size :: u16

text \<open>\<open>bitmap_weight(&w, nbits)\<close> of the kernel library: the number of set bits.\<close>

definition bitmap_weight :: "u64 \<Rightarrow> nat \<Rightarrow> nat" where
  "bitmap_weight w nbits = length (filter (bit w) [0..<nbits])"

text \<open>
  \<open>bch_get_congested\<close>. The macro \<open>CONGESTED_MAX\<close> and the function
  \<open>fract_exp_two\<close> are not defined in the sources at hand and are parameters, as are
  the clock reading \<open>local_clock_us()\<close> and the value of \<open>get_random_int()\<close>.
  \<open>i\<close> is an \<open>int\<close>, \<open>rand\<close> a \<open>long\<close> that receives the sign-extended \<open>int\<close>;
  \<open>congested_elapsed\<close> is the first value of \<open>i\<close>, the clock difference divided by
  1024 and cut to an \<open>int\<close>.
\<close>

definition congested_elapsed :: "cache_set_req \<Rightarrow> u64 \<Rightarrow> u32" where
  "congested_elapsed c local_clock_us =
     (ucast ((local_clock_us - congested_last_us c) div 1024) :: u32)"

definition bch_get_congested ::
    "u32 \<Rightarrow> (u32 \<Rightarrow> u32 \<Rightarrow> u32) \<Rightarrow> cache_set_req \<Rightarrow> u64 \<Rightarrow> u32 \<Rightarrow> u32" where
  "bch_get_congested CONGESTED_MAX fract_exp_two c local_clock_us random_int =
     (if congested_read_threshold_us c = 0 \<and> congested_write_threshold_us c = 0 then 0
      else
        let i = congested_elapsed c local_clock_us in
        if int_lt0 i then 0
        else
          let i = i + congested c in
          if \<not> int_lt0 i then 0
          else
            let i = i + CONGESTED_MAX;
                i = (if int_gt0 i then fract_exp_two i 6 else i);
                rand = (scast random_int :: u64);
                i = i - of_nat (bitmap_weight rand 64)
            in if int_gt0 i then i else 1)"

text \<open>
  The formula of the specification, over the integers:
  \<open>max(0, CONGESTED_MAX - elapsed_ms + counter)\<close>.
\<close>

definition spec_congested :: "int \<Rightarrow> int \<Rightarrow> int \<Rightarrow> int" where
  "spec_congested cmax elapsed_ms counter = max 0 (cmax - elapsed_ms + counter)"

text \<open>
  Values for the parameters, used where a concrete run of the code is shown:
  \<open>fract_exp_two\<close> as bcache's util.h defines it, and a cache set with congestion
  enabled whose counter stands at \<open>-5\<close>.
\<close>

definition fract_exp_two :: "u32 \<Rightarrow> u32 \<Rightarrow> u32" where
  "fract_exp_two x fract_bits =
     (let fract = x AND NOT (push_bit (unat fract_bits) (- 1));
          x = drop_bit (unat fract_bits) x;
          x = push_bit (unat x) 1;
          x = x + drop_bit (unat fract_bits) (x * fract)
      in x)"

definition congested_cs :: cache_set_req where
  "congested_cs = \<lparr>congested_read_threshold_us = 2000, congested_write_threshold_us = 20000,
      congested_last_us = 0, congested = - 5, sectors_available = 1000000,
      capacity = 1000000, block_size = 8\<rparr>"

section \<open>The bypass decision (request.c)\<close>

datatype req_op = REQ_OP_READ | REQ_OP_WRITE | REQ_OP_DISCARD | REQ_OP_OTHER nat

datatype cache_mode =
  CACHE_MODE_WRITETHROUGH | CACHE_MODE_WRITEBACK | CACHE_MODE_WRITEAROUND | CACHE_MODE_NONE

text \<open>
  A bio: \<open>bi_iter.bi_sector\<close>, \<open>bi_iter.bi_size\<close> (bytes, \<open>unsigned int\<close>), the
  operation and the flag bits of \<open>bi_opf\<close> that the code tests, the target device and the
  completion status (\<open>None\<close> for 0, \<open>Some e\<close> for \<open>-e\<close>).
\<close>

datatype bdev = Exported_disk | Backing_bdev

record bio =
  bi_sector :: u64
  bi_size :: u32
  bi_op :: req_op
  req_sync :: bool
  req_preflush :: bool
  req_fua :: bool
  bi_bdev :: bdev
  bi_error :: "errno option"

definition op_is_write :: "req_op \<Rightarrow> bool" where
  "op_is_write op = (op \<noteq> REQ_OP_READ)"

definition bio_sectors :: "bio \<Rightarrow> u32" where
  "bio_sectors b = drop_bit 9 (bi_size b)"

definition bio_end_sector :: "bio \<Rightarrow> u64" where
  "bio_end_sector b = bi_sector b + ucast (bio_sectors b)"

text \<open>
  \<open>struct io\<close>, one entry of the recent-io ring of a cached device: the sector after the
  last I/O, the time until which the entry counts as recent, and the accumulated run.
\<close>

record io =
  last_sector :: u64
  last_io :: u64
  sequential :: u32

record task_struct =
  sequential_io :: u32
  sequential_io_avg :: u32

text \<open>
  The fields of \<open>struct cached_dev\<close> used by request.c. The \<open>struct io\<close>
  objects live in the store \<open>ios\<close> and are named by their index; \<open>io_hash\<close> gives the
  chain of every hash bucket (head first) and \<open>io_lru\<close> the LRU list (head first).
  \<open>count\<close> is the reference count that is non-zero while the device is attached to a
  cache set, \<open>data_offset\<close> is \<open>dc->disk_sb.sb->data_offset\<close>, \<open>backing_discard\<close>
  is \<open>blk_queue_discard\<close> of the backing device's queue.
\<close>

record cached_dev =
  detaching :: bool
  bdev_cache_mode :: cache_mode
  sequential_cutoff :: u32
  bypass_torture_test :: bool
  ios :: "nat \<Rightarrow> io"
  io_hash :: "nat \<Rightarrow> nat list"
  io_lru :: "nat list"
  count :: nat
  data_offset :: u64
  backing_discard :: bool

text \<open>
  What the decision takes from outside the sources at hand: the kernel's \<open>hash_64(k,
  RECENT_IO_BITS)\<close>, \<open>ewma_add\<close>, \<open>jiffies\<close>, \<open>msecs_to_jiffies\<close>, the clock and
  the two random numbers drawn, and the parameters of \<open>bch_get_congested\<close>.
\<close>

record bypass_env =
  hash_64 :: "u64 \<Rightarrow> nat"
  ewma_add :: "u32 \<Rightarrow> u32 \<Rightarrow> nat \<Rightarrow> u32"
  jiffies :: u64
  msecs_to_jiffies :: "nat \<Rightarrow> u64"
  env_clock_us :: u64
  env_random_congested :: u32
  env_random_torture :: u32
  env_CONGESTED_MAX :: u32
  env_fract_exp_two :: "u32 \<Rightarrow> u32 \<Rightarrow> u32"

text \<open>\<open>time_before(a, b)\<close> of the kernel: \<open>(long)(a - b) < 0\<close>.\<close>

definition time_before :: "u64 \<Rightarrow> u64 \<Rightarrow> bool" where
  "time_before a b = (sint (a - b) < 0)"

definition add_sequential :: "bypass_env \<Rightarrow> task_struct \<Rightarrow> task_struct" where
  "add_sequential env t =
     t\<lparr>sequential_io_avg := ewma_add env (sequential_io_avg t) (sequential_io t) 3,
       sequential_io := 0\<rparr>"

definition iohash :: "bypass_env \<Rightarrow> cached_dev \<Rightarrow> u64 \<Rightarrow> nat list" where
  "iohash env dc k = io_hash dc (hash_64 env k)"

text \<open>The \<open>hlist_for_each_entry\<close> search for a recent entry that ends where the bio starts.\<close>

definition io_lookup :: "bypass_env \<Rightarrow> cached_dev \<Rightarrow> bio \<Rightarrow> nat option" where
  "io_lookup env dc b =
     find (\<lambda>i. last_sector (ios dc i) = bi_sector b
                \<and> time_before (jiffies env) (last_io (ios dc i)))
          (iohash env dc (bi_sector b))"

text \<open>
  The guarded addition at label \<open>found\<close>:
  \<open>if (i->sequential + bi_size > i->sequential) i->sequential += bi_size\<close>, in
  \<open>unsigned\<close> arithmetic.
\<close>

definition sequential_add :: "u32 \<Rightarrow> u32 \<Rightarrow> u32" where
  "sequential_add run sz = (if run < run + sz then run + sz else run)"

text \<open>The code from label \<open>found\<close> to \<open>spin_unlock\<close>, for the entry \<open>i\<close>.\<close>

definition io_found :: "bypass_env \<Rightarrow> cached_dev \<Rightarrow> task_struct \<Rightarrow> bio \<Rightarrow> nat
    \<Rightarrow> cached_dev \<times> task_struct" where
  "io_found env dc task b i =
     (let e = ios dc i;
          e = e\<lparr>sequential := sequential_add (sequential e) (bi_size b)\<rparr>;
          e = e\<lparr>last_sector := bio_end_sector b,
                last_io := jiffies env + msecs_to_jiffies env 5000\<rparr>;
          task = task\<lparr>sequential_io := sequential e\<rparr>;
          h = (\<lambda>k. removeAll i (io_hash dc k));
          h = h(hash_64 env (last_sector e) := i # h (hash_64 env (last_sector e)))
      in (dc\<lparr>ios := (ios dc)(i := e), io_hash := h,
              io_lru := removeAll i (io_lru dc) @ [i]\<rparr>, task))"

text \<open>
  The sequential detector: the search, the fall-back to the first LRU entry (whose run is
  reset), and the update. \<open>None\<close> stands for \<open>list_first_entry\<close> of an empty LRU
  list, which the C code does not guard against.
\<close>

definition sequential_detect :: "bypass_env \<Rightarrow> cached_dev \<Rightarrow> task_struct \<Rightarrow> bio
    \<Rightarrow> (nat \<times> cached_dev \<times> task_struct) option" where
  "sequential_detect env dc task b =
     (case io_lookup env dc b of
        Some i \<Rightarrow> Some (i, io_found env dc task b i)
      | None \<Rightarrow>
          (case io_lru dc of
             [] \<Rightarrow> None
           | i # _ \<Rightarrow>
               let task = add_sequential env task;
                   dc = dc\<lparr>ios := (ios dc)(i := (ios dc i)\<lparr>sequential := 0\<rparr>)\<rparr>
               in Some (i, io_found env dc task b i)))"

definition CUTOFF_CACHE_ADD :: u64 where
  "CUTOFF_CACHE_ADD = 10"

text \<open>The two tests after the detector, on the task's run length in sectors.\<close>

definition bypass_after_detect :: "cached_dev \<Rightarrow> task_struct \<Rightarrow> u32 \<Rightarrow> bool" where
  "bypass_after_detect dc task cong =
     (let sectors = drop_bit 9 (max (sequential_io task) (sequential_io_avg task)) in
      if sequential_cutoff dc \<noteq> 0 \<and> drop_bit 9 (sequential_cutoff dc) \<le> sectors then True
      else if cong \<noteq> 0 \<and> cong \<le> sectors then True
      else False)"

text \<open>
  The tests of \<open>check_should_bypass\<close> that come before the detector:
  \<open>Some True\<close> is \<open>goto skip\<close>, \<open>Some False\<close> is \<open>goto rescale\<close>, \<open>None\<close>
  falls through to \<open>spin_lock(&dc->io_lock)\<close>. \<open>cong\<close> is the value of
  \<open>bch_get_congested(c)\<close>.
\<close>

definition early_decision :: "bypass_env \<Rightarrow> cache_set_req \<Rightarrow> cached_dev \<Rightarrow> bio \<Rightarrow> u32
    \<Rightarrow> bool option" where
  "early_decision env c dc b cong =
     (let mode = bdev_cache_mode dc;
          mask = (ucast (block_size c) :: u32) - 1
      in
      if detaching dc
         \<or> sectors_available c * 100 < capacity c * CUTOFF_CACHE_ADD
         \<or> bi_op b = REQ_OP_DISCARD then Some True
      else if mode = CACHE_MODE_NONE
         \<or> (mode = CACHE_MODE_WRITEAROUND \<and> op_is_write (bi_op b)) then Some True
      else if bi_sector b AND scast mask \<noteq> 0 \<or> bio_sectors b AND mask \<noteq> 0 then Some True
      else if bypass_torture_test dc
        then (if env_random_torture env AND 3 = 3 then Some True else Some False)
      else if cong = 0 \<and> sequential_cutoff dc = 0 then Some False
      else if cong = 0 \<and> mode = CACHE_MODE_WRITEBACK \<and> op_is_write (bi_op b) \<and> req_sync b
        then Some False
      else None)"

text \<open>
  \<open>check_should_bypass\<close>: the result (\<open>True\<close> at label \<open>skip\<close>, \<open>False\<close> at
  \<open>rescale\<close>) with the device and task as the call leaves them. The accounting call
  \<open>bch_mark_sectors_bypassed\<close> at \<open>skip\<close> is outside the sources at hand and left out.
  \<open>env_congested\<close> is the call \<open>bch_get_congested(c)\<close> in the environment given.
\<close>

definition env_congested :: "bypass_env \<Rightarrow> cache_set_req \<Rightarrow> u32" where
  "env_congested env c =
     bch_get_congested (env_CONGESTED_MAX env) (env_fract_exp_two env) c
       (env_clock_us env) (env_random_congested env)"

definition check_should_bypass :: "bypass_env \<Rightarrow> cache_set_req \<Rightarrow> cached_dev \<Rightarrow> task_struct
    \<Rightarrow> bio \<Rightarrow> (bool \<times> cached_dev \<times> task_struct) option" where
  "check_should_bypass env c dc task b =
     (let cong = env_congested env c
      in
      case early_decision env c dc b cong of
        Some r \<Rightarrow> Some (r, dc, task)
      | None \<Rightarrow>
          (case sequential_detect env dc task b of
             None \<Rightarrow> None
           | Some (i, dc', task') \<Rightarrow> Some (bypass_after_detect dc' task' cong, dc', task')))"

text \<open>
  Values for the parameters, used where a concrete run of the code is shown: the
  kernel's multiplicative \<open>hash_64\<close> on \<open>RECENT_IO_BITS = 7\<close> bits, bcache's
  \<open>ewma_add\<close>, and \<open>HZ = 1000\<close>.
\<close>

definition linux_hash_64 :: "u64 \<Rightarrow> nat" where
  "linux_hash_64 k = unat (drop_bit 57 (k * 0x61C8864680B583EB))"

definition example_env :: bypass_env where
  "example_env = \<lparr>hash_64 = linux_hash_64,
     ewma_add = (\<lambda>ewma val weight. drop_bit weight (push_bit weight ewma - ewma + val)),
     jiffies = 1000, msecs_to_jiffies = (\<lambda>m. of_nat m),
     env_clock_us = 10240, env_random_congested = 0, env_random_torture = 0,
     env_CONGESTED_MAX = 1024, env_fract_exp_two = fract_exp_two\<rparr>"

text \<open>
  A writethrough device with a 4 MiB cutoff whose ring holds one recent entry ending at
  sector 2048 with a run of \<open>run\<close> bytes, and a 4 KiB write that starts there.
\<close>

definition example_dc :: "u32 \<Rightarrow> cached_dev" where
  "example_dc run = \<lparr>detaching = False, bdev_cache_mode = CACHE_MODE_WRITETHROUGH,
     sequential_cutoff = 4194304, bypass_torture_test = False,
     ios = (\<lambda>_. \<lparr>last_sector = 0, last_io = 0, sequential = 0\<rparr>)
             (0 := \<lparr>last_sector = 2048, last_io = 3000, sequential = run\<rparr>),
     io_hash = (\<lambda>_. [])(linux_hash_64 2048 := [0]),
     io_lru = [1, 0], count = 1, data_offset = 16, backing_discard = False\<rparr>"

definition example_bio :: bio where
  "example_bio = \<lparr>bi_sector = 2048, bi_size = 4096, bi_op = REQ_OP_WRITE, req_sync = False,
     req_preflush = False, req_fua = False, bi_bdev = Backing_bdev, bi_error = None\<rparr>"

definition example_task :: "u32 \<Rightarrow> task_struct" where
  "example_task avg = \<lparr>sequential_io = 0, sequential_io_avg = avg\<rparr>"

definition uncongested_cs :: cache_set_req where
  "uncongested_cs = \<lparr>congested_read_threshold_us = 0, congested_write_threshold_us = 0,
      congested_last_us = 0, congested = 0, sectors_available = 1000000,
      capacity = 1000000, block_size = 8\<rparr>"

section \<open>The make\_request functions (request.c)\<close>

datatype write_flag =
  BCH_WRITE_DISCARD_ON_ERROR | BCH_WRITE_CACHED | BCH_WRITE_ALLOC_NOWAIT | BCH_WRITE_FLUSH
  | BCH_WRITE_DISCARD

datatype closure_fn =
  Search_free | Cached_dev_bio_complete | Cached_dev_write_complete | Cached_dev_read_done_bh

text \<open>
  What a make\_request function does to the world outside request.c, in the order of the
  calls: \<open>bch_journal_flush_async\<close> on the journal of the cache set; a bio handed to
  the block layer for the device in its \<open>bi_bdev\<close> (\<open>closure_bio_submit\<close>,
  \<open>generic_make_request\<close>); a bio completed back to its submitter (\<open>bio_endio\<close>);
  \<open>bch_disk_reservation_get\<close> with the sectors asked for and its result;
  \<open>bch_write\<close> started on a write operation (flags, start position, whether it carries
  a reservation); \<open>bch_read\<close>; \<open>bch_writeback_add\<close>; the walk of the extents tree
  in \<open>cached_dev_read\<close>; and the continuation a closure is left with.
\<close>

datatype event =
    Journal_flush_async
  | Closure_bio_submit bio
  | Generic_make_request bio
  | Bio_endio bio
  | Disk_reservation_get u32 "errno option"
  | Bch_write "write_flag set" bpos bool
  | Bch_read
  | Writeback_add
  | Extents_lookup bool
  | Continue_at closure_fn

text \<open>
  \<open>struct search\<close>: \<open>orig_bio\<close> (\<open>None\<close> once completed), the hooked clone in
  \<open>rbio\<close>/\<open>wbio\<close>, the flags, the inode number and \<open>iop.error\<close>. The field is
  declared \<open>unsigned inode\<close> (blockdev.h), so \<open>search_alloc\<close> keeps the low 32 bits of
  \<open>bcache_dev_inum\<close>, and \<open>KEY\<close> widens them again.
\<close>

record search =
  orig_bio :: "bio option"
  clone :: bio
  s_inode :: u32
  s_write :: bool
  recoverable :: bool
  read_dirty_data :: bool
  cache_miss :: bool
  bypass :: bool
  iop_error :: "errno option"

definition search_alloc :: "bio \<Rightarrow> u64 \<Rightarrow> search" where
  "search_alloc b inum =
     \<lparr>orig_bio = Some b, clone = b, s_inode = ucast inum, s_write = op_is_write (bi_op b),
      recoverable = True, read_dirty_data = False, cache_miss = False, bypass = False,
      iop_error = None\<rparr>"

text \<open>\<open>request_endio\<close> for a backing-device bio that completed with \<open>bi_error\<close>.\<close>

definition request_endio :: "bio \<Rightarrow> search \<Rightarrow> search" where
  "request_endio b s =
     (if bi_error b \<noteq> None then s\<lparr>iop_error := bi_error b, recoverable := False\<rparr> else s)"

definition bio_complete :: "search \<Rightarrow> event list \<times> search" where
  "bio_complete s =
     (case orig_bio s of
        Some ob \<Rightarrow> ([Bio_endio (ob\<lparr>bi_error := iop_error s\<rparr>)], s\<lparr>orig_bio := None\<rparr>)
      | None \<Rightarrow> ([], s))"

definition search_free :: "search \<Rightarrow> event list \<times> search" where
  "search_free s = bio_complete s"

definition cached_dev_put :: "cached_dev \<Rightarrow> cached_dev" where
  "cached_dev_put dc = dc\<lparr>count := count dc - 1\<rparr>"

definition cached_dev_get :: "cached_dev \<Rightarrow> cached_dev option" where
  "cached_dev_get dc = (if count dc = 0 then None else Some (dc\<lparr>count := count dc + 1\<rparr>))"

definition cached_dev_bio_complete :: "cached_dev \<Rightarrow> search
    \<Rightarrow> event list \<times> search \<times> cached_dev" where
  "cached_dev_bio_complete dc s = (fst (search_free s), snd (search_free s), cached_dev_put dc)"

text \<open>
  What \<open>cached_dev_write\<close> asks of code outside the sources at hand:
  \<open>bch_keybuf_check_overlapping\<close> and \<open>should_writeback\<close> (which is given the
  current \<open>bypass\<close>).
\<close>

record write_env =
  keybuf_check_overlapping :: bool
  should_writeback :: "bool \<Rightarrow> bool"

definition KEY_start_pos :: "u64 \<Rightarrow> bio \<Rightarrow> bpos" where
  "KEY_start_pos inum b = \<lparr>inode = inum, offset = bi_sector b, snapshot = 0\<rparr>"

definition cached_dev_write :: "write_env \<Rightarrow> cached_dev \<Rightarrow> search \<Rightarrow> event list" where
  "cached_dev_write wenv dc s =
     (let b = clone s;
          writeback = False;
          byp = bypass s;
          (byp, writeback) =
             (if keybuf_check_overlapping wenv then (False, True) else (byp, writeback));
          byp = (if bi_op b = REQ_OP_DISCARD then True else byp);
          (byp, writeback) =
             (if should_writeback wenv byp then (False, True) else (byp, writeback));
          (evs, fl) =
             (if byp then
                ((if bi_op b \<noteq> REQ_OP_DISCARD \<or> backing_discard dc
                  then (case orig_bio s of Some ob \<Rightarrow> [Closure_bio_submit ob] | None \<Rightarrow> [])
                  else []),
                 {BCH_WRITE_DISCARD_ON_ERROR})
              else if writeback then
                (Writeback_add #
                   (if req_preflush b
                    then [Closure_bio_submit
                            \<lparr>bi_sector = 0, bi_size = 0, bi_op = REQ_OP_WRITE, req_sync = True,
                             req_preflush = True, req_fua = False, bi_bdev = bi_bdev b,
                             bi_error = None\<rparr>]
                    else []),
                 {BCH_WRITE_DISCARD_ON_ERROR})
              else
                ([Closure_bio_submit b],
                 {BCH_WRITE_DISCARD_ON_ERROR, BCH_WRITE_CACHED, BCH_WRITE_ALLOC_NOWAIT}));
          fl = (if req_preflush b \<or> req_fua b then insert BCH_WRITE_FLUSH fl else fl);
          fl = (if byp then insert BCH_WRITE_DISCARD fl else fl)
      in evs @ [Bch_write fl (KEY_start_pos (ucast (s_inode s)) b) False,
                Continue_at Cached_dev_write_complete])"

text \<open>
  \<open>cached_dev_read\<close> walks the extents tree (\<open>for_each_btree_key_with_holes\<close>) and
  reads from cache or backing device; here it is the one event \<open>Extents_lookup\<close> with
  the bypass flag, followed by its continuation.
\<close>

definition cached_dev_read :: "cached_dev \<Rightarrow> search \<Rightarrow> event list" where
  "cached_dev_read dc s = [Extents_lookup (bypass s), Continue_at Cached_dev_read_done_bh]"

text \<open>The bio after the first two assignments of \<open>__cached_dev_make_request\<close>.\<close>

definition redirected :: "cached_dev \<Rightarrow> bio \<Rightarrow> bio" where
  "redirected dc b = b\<lparr>bi_bdev := Backing_bdev, bi_sector := bi_sector b + data_offset dc\<rparr>"

text \<open>
  \<open>__cached_dev_make_request\<close> for a bio sent to the exported disk of the cached device
  \<open>dc\<close> with inode number \<open>inum\<close>: the events, the search object if one was
  allocated, and the device and task afterwards. \<open>None\<close> is \<open>None\<close> of
  \<open>check_should_bypass\<close>.
\<close>

definition cached_dev_make_request :: "bypass_env \<Rightarrow> write_env \<Rightarrow> cache_set_req \<Rightarrow> cached_dev
    \<Rightarrow> task_struct \<Rightarrow> u64 \<Rightarrow> bio
    \<Rightarrow> (event list \<times> search option \<times> cached_dev \<times> task_struct) option" where
  "cached_dev_make_request env wenv c dc task inum b0 =
     (let rw = op_is_write (bi_op b0);
          b = redirected dc b0
      in
      case cached_dev_get dc of
        Some dc \<Rightarrow>
          (let s = search_alloc b inum in
           if bi_size b = 0 then
             Some ((if req_preflush b \<or> req_fua b then [Journal_flush_async] else [])
                     @ [Closure_bio_submit (clone s), Continue_at Cached_dev_bio_complete],
                   Some s, dc, task)
           else
             (case check_should_bypass env c dc task b of
                None \<Rightarrow> None
              | Some (byp, dc, task) \<Rightarrow>
                  (let s = s\<lparr>bypass := byp\<rparr> in
                   Some ((if rw then cached_dev_write wenv dc s else cached_dev_read dc s),
                         Some s, dc, task))))
      | None \<Rightarrow>
          (if bi_op b = REQ_OP_DISCARD \<and> \<not> backing_discard dc
           then Some ([Bio_endio b], None, dc, task)
           else Some ([Generic_make_request b], None, dc, task)))"

text \<open>
  \<open>__blockdev_volume_make_request\<close>; \<open>reservation_get\<close> is
  \<open>bch_disk_reservation_get\<close> as a function of the sectors asked for (\<open>None\<close> for
  0). The result is the events and the search object as the function leaves it.
\<close>

definition blockdev_volume_make_request :: "(u32 \<Rightarrow> errno option) \<Rightarrow> u64 \<Rightarrow> bio
    \<Rightarrow> event list \<times> search" where
  "blockdev_volume_make_request reservation_get inum b =
     (let rw = op_is_write (bi_op b);
          s = search_alloc b inum
      in
      if bi_size b = 0 then
        ((if req_preflush b \<or> req_fua b then [Journal_flush_async] else [])
           @ [Continue_at Search_free, Continue_at Search_free], s)
      else if rw then
        (if bi_op b \<noteq> REQ_OP_DISCARD \<and> reservation_get (bio_sectors b) \<noteq> None
         then ([Disk_reservation_get (bio_sectors b) (reservation_get (bio_sectors b)),
                Continue_at Search_free],
               s\<lparr>iop_error := Some ENOSPC\<rparr>)
         else
           (let fl = {};
                fl = (if req_preflush b \<or> req_fua b then insert BCH_WRITE_FLUSH fl else fl);
                fl = (if bi_op b = REQ_OP_DISCARD then insert BCH_WRITE_DISCARD fl else fl)
            in ((if bi_op b \<noteq> REQ_OP_DISCARD
                 then [Disk_reservation_get (bio_sectors b) None] else [])
                  @ [Bch_write fl (KEY_start_pos (ucast (s_inode s)) b) (bi_op b \<noteq> REQ_OP_DISCARD),
                     Continue_at Search_free], s)))
      else ([Bch_read, Continue_at Search_free], s))"

text \<open>Classes of events.\<close>

definition is_backing_submit :: "event \<Rightarrow> bool" where
  "is_backing_submit ev =
     (case ev of Closure_bio_submit b \<Rightarrow> bi_bdev b = Backing_bdev
               | Generic_make_request b \<Rightarrow> bi_bdev b = Backing_bdev
               | _ \<Rightarrow> False)"

definition is_tree_lookup :: "event \<Rightarrow> bool" where
  "is_tree_lookup ev = (case ev of Extents_lookup _ \<Rightarrow> True | Bch_read \<Rightarrow> True | _ \<Rightarrow> False)"

definition is_insert :: "event \<Rightarrow> bool" where
  "is_insert ev = (case ev of Bch_write _ _ _ \<Rightarrow> True | _ \<Rightarrow> False)"

text \<open>
  Traffic to the cache set: a tree lookup, an insert, or a flush of its journal, which
  writes the open journal entry to the cache devices.
\<close>

definition is_cache_traffic :: "event \<Rightarrow> bool" where
  "is_cache_traffic ev = (is_tree_lookup ev \<or> is_insert ev \<or> ev = Journal_flush_async)"

text \<open>A zero-length flush as the block layer sends it, addressed to the exported disk.\<close>

definition flush_bio :: bio where
  "flush_bio = \<lparr>bi_sector = 0, bi_size = 0, bi_op = REQ_OP_WRITE, req_sync = True,
     req_preflush = True, req_fua = False, bi_bdev = Exported_disk, bi_error = None\<rparr>"

definition example_wenv :: write_env where
  "example_wenv = \<lparr>keybuf_check_overlapping = False, should_writeback = (\<lambda>_. False)\<rparr>"

section \<open>Theorems\<close>

subsection \<open>Successor positions\<close>

text \<open>
  C9: the successor position, tree by tree. For the inodes tree the inode field is
  incremented (modulo \<open>2^64\<close>) and the offset reset to 0, the snapshot kept. For every
  tree other than inodes and extents the result is \<open>bkey_successor\<close> of the position.
  For the extents tree \<open>btree_type_successor\<close> hands back the position it is given; an
  extent is indexed by its end, so at the position \<open>k.p\<close> of a key \<open>k\<close>, which is where
  the iterator's current key stands, the result is the start of \<open>k\<close> advanced by the size
  of \<open>k\<close>.
\<close>

theorem btree_type_successor_cases:
  "btree_type_successor bkey_succ BTREE_ID_INODES pos
       = \<lparr>inode = inode pos + 1, offset = 0, snapshot = snapshot pos\<rparr>
   \<and> btree_type_successor bkey_succ BTREE_ID_EXTENTS (bkey_p k)
       = spec_extent_advance (bkey_start_pos k) (bkey_size k)
   \<and> btree_type_successor bkey_succ BTREE_ID_EXTENTS pos = pos
   \<and> btree_type_successor bkey_succ (BTREE_ID_OTHER n) pos = bkey_succ pos"
  by (simp add: btree_type_successor_def spec_extent_advance_def bkey_start_pos_def)

subsection \<open>The reserve of the node cache\<close>

lemma fold_reserve_step:
  "fold (reserve_step c) rs acc = acc + sum_list (map (root_term c) rs)"
  by (induction rs arbitrary: acc) (auto simp: reserve_step_def root_term_def split: option.splits)

text \<open>
  C7 as stated fails whenever the root in slot 0 is absent: the code then adds 8 more. For
  the cache set that \<open>bch_fs_btree_init\<close> starts from (no root yet) the code sets the
  reserve to 24, the formula of the claim gives 16.
\<close>

theorem bch_recalc_btree_reserve_no_root_counterexample:
  "btree_cache_reserve (bch_recalc_btree_reserve init_cache_set) = 24
   \<and> spec_btree_reserve init_cache_set = 16"
  by (simp add: bch_recalc_btree_reserve_def init_cache_set_def spec_btree_reserve_def
      root0_absent_def reserve_step_def root_term_def Let_def)

text \<open>
  C7, amended: \<open>bch_recalc_btree_reserve\<close> sets the reserve to 16, plus 8 when the root
  in slot 0 is absent, plus \<open>min(1, level) * 8\<close> for each root present (in
  \<open>unsigned\<close> arithmetic).
\<close>

theorem bch_recalc_btree_reserve_value:
  "btree_cache_reserve (bch_recalc_btree_reserve c)
     = spec_btree_reserve c + (if root0_absent c then 8 else 0)"
  by (simp add: bch_recalc_btree_reserve_def fold_reserve_step Let_def spec_btree_reserve_def)

theorem bch_recalc_btree_reserve_value_witness:
  "btree_cache_reserve (bch_recalc_btree_reserve
      (init_cache_set\<lparr>nodes := (nodes init_cache_set)(1 := zeroed_btree\<lparr>level := 2\<rparr>),
                       btree_roots := [None, Some 1]\<rparr>)) = 32"
  using bch_recalc_btree_reserve_value
    [of "init_cache_set\<lparr>nodes := (nodes init_cache_set)(1 := zeroed_btree\<lparr>level := 2\<rparr>),
                       btree_roots := [None, Some 1]\<rparr>"]
  by (simp add: init_cache_set_def spec_btree_reserve_def root0_absent_def root_term_def)

subsection \<open>Congestion\<close>

lemma sint_add_nooverflow:
  "0 \<le> sint (a::u32) \<Longrightarrow> sint (b::u32) \<le> 0 \<Longrightarrow> sint (a + b) = sint a + sint b"
  using sint_lt[of a] sint_ge[of b]
  by (simp add: sint_word_ariths signed_take_bit_int_eq_self)

lemma int_gt0_neq0: "int_gt0 k \<Longrightarrow> k \<noteq> 0"
  by (auto simp: int_gt0_def)

lemma not_int_gt0_zero: "\<not> int_gt0 0"
  by (simp add: int_gt0_def)

text \<open>
  C4 as stated fails: the code adds the elapsed time to the (negative) counter and returns
  0 as soon as the sum is not negative. With congestion enabled, 10 ms elapsed, the
  counter at \<open>-5\<close> and a random word without set bits (no dither), the formula of the
  claim gives \<open>max(0, 1024 - 10 - 5) = 1009\<close>; the code returns 0.
\<close>

theorem bch_get_congested_formula_counterexample:
  "congested_read_threshold_us congested_cs \<noteq> 0
   \<and> (10240 - congested_last_us congested_cs) div 1024 = 10
   \<and> sint (congested congested_cs) = - 5
   \<and> bitmap_weight (scast (0 :: u32)) 64 = 0
   \<and> spec_congested 1024 10 (- 5) = 1009
   \<and> bch_get_congested 1024 fract_exp_two congested_cs 10240 0 = 0"
  by (simp add: congested_cs_def bitmap_weight_def spec_congested_def bch_get_congested_def
      int_lt0_def int_gt0_def Let_def congested_elapsed_def)

text \<open>
  C4, amended: \<open>bch_get_congested\<close> returns 0 when congestion is disabled (both
  thresholds zero); it returns 0 exactly when congestion is disabled, or the elapsed time
  (clock difference in units of 1024 us, as an \<open>int\<close>) is negative, or the elapsed time
  plus the counter is not negative. Otherwise it takes \<open>j = elapsed + counter +
  CONGESTED_MAX\<close>, replaces a positive \<open>j\<close> by \<open>fract_exp_two(j, 6)\<close>, subtracts the
  number of set bits of a random word, and returns the result if it is positive and 1
  if not. For a counter that is not positive the sum \<open>elapsed + counter\<close> does not
  overflow.
\<close>

theorem bch_get_congested_cases:
  "(congested_read_threshold_us c = 0 \<and> congested_write_threshold_us c = 0 \<longrightarrow>
       bch_get_congested cmax f c now r = 0)
   \<and> (bch_get_congested cmax f c now r = 0 \<longleftrightarrow>
        (congested_read_threshold_us c = 0 \<and> congested_write_threshold_us c = 0)
        \<or> int_lt0 (congested_elapsed c now)
        \<or> \<not> int_lt0 (congested_elapsed c now + congested c))
   \<and> (\<not> (congested_read_threshold_us c = 0 \<and> congested_write_threshold_us c = 0)
        \<and> \<not> int_lt0 (congested_elapsed c now)
        \<and> int_lt0 (congested_elapsed c now + congested c) \<longrightarrow>
        bch_get_congested cmax f c now r =
          (let j = congested_elapsed c now + congested c + cmax;
               k = (if int_gt0 j then f j 6 else j) - of_nat (bitmap_weight (scast r) 64)
           in if int_gt0 k then k else 1))
   \<and> (\<not> int_lt0 (congested_elapsed c now) \<and> sint (congested c) \<le> 0 \<longrightarrow>
        sint (congested_elapsed c now + congested c)
          = sint (congested_elapsed c now) + sint (congested c))"
  by (auto simp: bch_get_congested_def Let_def int_gt0_neq0 not_int_gt0_zero
      sint_add_nooverflow int_lt0_def)

theorem bch_get_congested_cases_witness:
  "bch_get_congested 1024 fract_exp_two (congested_cs\<lparr>congested := - 500\<rparr>) 102400 0 = 896"
  using bch_get_congested_cases
    [of "congested_cs\<lparr>congested := - 500\<rparr>" 1024 fract_exp_two 102400 0]
  by (simp add: congested_cs_def int_lt0_def int_gt0_def fract_exp_two_def bitmap_weight_def
      mask_eq_exp_minus_1 Let_def congested_elapsed_def)

subsection \<open>The sequential detector\<close>

lemma word_add_less_iff:
  "(run::u32) < run + sz \<longleftrightarrow> sz \<noteq> 0 \<and> unat run + unat sz < 2 ^ 32"
proof (cases "unat run + unat sz < 2 ^ 32")
  case True
  then have "unat (run + sz) = unat run + unat sz"
    by (simp add: unat_word_ariths)
  then show ?thesis using True
    by (simp add: word_less_nat_alt unat_gt_0)
next
  case False
  have b: "unat sz < 2 ^ 32" "unat run < 2 ^ 32"
    using unsigned_less[of sz, where ?'a=nat] unsigned_less[of run, where ?'a=nat] by simp_all
  have "unat (run + sz) = (unat run + unat sz) mod 2 ^ 32"
    by (simp add: unat_word_ariths)
  also have "\<dots> = unat run + unat sz - 2 ^ 32"
    using False b by (simp add: mod_if)
  finally have "unat (run + sz) \<le> unat run" using b by simp
  then show ?thesis using False
    by (simp add: word_less_nat_alt)
qed

lemma sequential_add_eq:
  "sequential_add run sz = (if unat run + unat sz < 2 ^ 32 then run + sz else run)"
  by (cases "sz = 0") (simp_all add: sequential_add_def word_add_less_iff)

lemma unat_sequential_add:
  "unat (sequential_add run sz)
     = (if unat run + unat sz < 2 ^ 32 then unat run + unat sz else unat run)"
  by (simp add: sequential_add_eq unat_word_ariths)

lemma io_found_sequential:
  "sequential (ios (fst (io_found env dc task b i)) i)
     = sequential_add (sequential (ios dc i)) (bi_size b)"
  by (simp add: io_found_def Let_def)

lemma io_found_task:
  "sequential_io (snd (io_found env dc task b i))
     = sequential_add (sequential (ios dc i)) (bi_size b)"
  by (simp add: io_found_def Let_def)

text \<open>
  C10: at label \<open>found\<close> of \<open>check_should_bypass\<close>, for every bio and every prior run
  of the entry \<open>i\<close>: when \<open>run + bi_size\<close> fits in 32 bits the run grows by exactly the
  bio's size; when the addition would wrap the run is left unchanged; the run never
  becomes smaller; and the task's \<open>sequential_io\<close> receives the same value.
\<close>

theorem sequential_run_never_wraps:
  "(unat (sequential (ios dc i)) + unat (bi_size b) < 2 ^ 32 \<longrightarrow>
      unat (sequential (ios (fst (io_found env dc task b i)) i))
        = unat (sequential (ios dc i)) + unat (bi_size b))
   \<and> (2 ^ 32 \<le> unat (sequential (ios dc i)) + unat (bi_size b) \<longrightarrow>
      sequential (ios (fst (io_found env dc task b i)) i) = sequential (ios dc i))
   \<and> unat (sequential (ios dc i)) \<le> unat (sequential (ios (fst (io_found env dc task b i)) i))
   \<and> sequential_io (snd (io_found env dc task b i))
        = sequential (ios (fst (io_found env dc task b i)) i)"
  unfolding io_found_sequential io_found_task
  using unat_sequential_add[of "sequential (ios dc i)" "bi_size b"]
        sequential_add_eq[of "sequential (ios dc i)" "bi_size b"]
  by (auto split: if_splits)

theorem sequential_run_never_wraps_witness:
  "2 ^ 32 \<le> unat (0xFFFFF800 :: u32) + unat (bi_size example_bio)
   \<and> sequential (ios (fst (io_found example_env (example_dc 0xFFFFF800) (example_task 0) example_bio 0)) 0)
       = 0xFFFFF800
   \<and> unat (4096 :: u32) + unat (bi_size example_bio) < 2 ^ 32
   \<and> unat (sequential (ios (fst (io_found example_env (example_dc 4096) (example_task 0) example_bio 0)) 0))
       = 8192"
  using sequential_run_never_wraps[of "example_dc 0xFFFFF800" 0 example_bio example_env "example_task 0"]
        sequential_run_never_wraps[of "example_dc 4096" 0 example_bio example_env "example_task 0"]
  by (simp add: example_dc_def example_bio_def)

lemma drop_bit_word_mono:
  "(a::u32) \<le> b \<Longrightarrow> drop_bit n a \<le> drop_bit n b"
  unfolding word_le_nat_alt unat_drop_bit_eq
  by (simp add: drop_bit_eq_div div_le_mono)

lemma io_lookup_SomeD:
  "io_lookup env dc b = Some i \<Longrightarrow>
     i \<in> set (iohash env dc (bi_sector b)) \<and> last_sector (ios dc i) = bi_sector b
     \<and> time_before (jiffies env) (last_io (ios dc i))"
  by (auto simp: io_lookup_def find_Some_iff)

lemma io_found_stamp:
  "last_sector (ios (fst (io_found env dc task b i)) i) = bio_end_sector b
   \<and> last_io (ios (fst (io_found env dc task b i)) i) = jiffies env + msecs_to_jiffies env 5000"
  by (simp add: io_found_def Let_def)

lemma io_found_fields:
  "sequential_cutoff (fst (io_found env dc task b i)) = sequential_cutoff dc
   \<and> sequential_io_avg (snd (io_found env dc task b i)) = sequential_io_avg task"
  by (simp add: io_found_def Let_def)

lemma check_should_bypass_hit:
  "io_lookup env dc b = Some i \<Longrightarrow> early_decision env c dc b (env_congested env c) = None \<Longrightarrow>
   check_should_bypass env c dc task b =
     Some (bypass_after_detect (fst (io_found env dc task b i)) (snd (io_found env dc task b i))
             (env_congested env c), io_found env dc task b i)"
  by (simp add: check_should_bypass_def sequential_detect_def case_prod_beta)

lemma bypass_after_detect_iff:
  "bypass_after_detect dc task cong \<longleftrightarrow>
     (sequential_cutoff dc \<noteq> 0
        \<and> drop_bit 9 (sequential_cutoff dc)
            \<le> drop_bit 9 (max (sequential_io task) (sequential_io_avg task)))
     \<or> (cong \<noteq> 0 \<and> cong \<le> drop_bit 9 (max (sequential_io task) (sequential_io_avg task)))"
  by (simp add: bypass_after_detect_def Let_def)

lemma bypass_when_run_reaches_cutoff:
  "sequential_cutoff dc \<noteq> 0 \<Longrightarrow> sequential_cutoff dc \<le> sequential_io task \<Longrightarrow>
   bypass_after_detect dc task cong"
proof -
  assume nz: "sequential_cutoff dc \<noteq> 0" and le: "sequential_cutoff dc \<le> sequential_io task"
  have "sequential_cutoff dc \<le> max (sequential_io task) (sequential_io_avg task)"
    using le by (rule max.coboundedI1)
  then have "drop_bit 9 (sequential_cutoff dc)
      \<le> drop_bit 9 (max (sequential_io task) (sequential_io_avg task))"
    by (rule drop_bit_word_mono)
  with nz show ?thesis by (simp add: bypass_after_detect_iff)
qed

text \<open>
  C5, amended: a sequential-detector hit requires an entry in the hash chain of the bio's
  start sector whose last sector equals that sector and whose expiry time (set to the time
  of its last I/O plus 5 seconds) has not passed. On a hit the entry's run grows by the
  bio's size (it stays as it is if the 32-bit sum would wrap), its last sector becomes the
  end of the bio and its expiry the current time plus 5 seconds. The request then bypasses
  exactly when, counted in 512-byte sectors, the larger of the run and the task's average
  sequential I/O reaches a non-zero \<open>sequential_cutoff\<close> or a non-zero congestion
  value; in particular it bypasses whenever the run reaches a non-zero
  \<open>sequential_cutoff\<close>.
\<close>

theorem sequential_detector_hit:
  assumes hit: "io_lookup env dc b = Some i"
      and reach: "early_decision env c dc b (env_congested env c) = None"
  shows "i \<in> set (iohash env dc (bi_sector b))
     \<and> last_sector (ios dc i) = bi_sector b
     \<and> time_before (jiffies env) (last_io (ios dc i))
     \<and> check_should_bypass env c dc task b =
         Some (bypass_after_detect (fst (io_found env dc task b i))
                 (snd (io_found env dc task b i)) (env_congested env c),
               io_found env dc task b i)
     \<and> sequential (ios (fst (io_found env dc task b i)) i)
         = sequential_add (sequential (ios dc i)) (bi_size b)
     \<and> last_sector (ios (fst (io_found env dc task b i)) i) = bio_end_sector b
     \<and> last_io (ios (fst (io_found env dc task b i)) i)
         = jiffies env + msecs_to_jiffies env 5000
     \<and> (bypass_after_detect (fst (io_found env dc task b i))
           (snd (io_found env dc task b i)) (env_congested env c)
         \<longleftrightarrow>
           (sequential_cutoff dc \<noteq> 0
              \<and> drop_bit 9 (sequential_cutoff dc)
                  \<le> drop_bit 9 (max (sequential (ios (fst (io_found env dc task b i)) i))
                                     (sequential_io_avg task)))
           \<or> (env_congested env c \<noteq> 0
              \<and> env_congested env c
                  \<le> drop_bit 9 (max (sequential (ios (fst (io_found env dc task b i)) i))
                                     (sequential_io_avg task))))
     \<and> (sequential_cutoff dc \<noteq> 0
          \<and> sequential_cutoff dc \<le> sequential (ios (fst (io_found env dc task b i)) i)
        \<longrightarrow> bypass_after_detect (fst (io_found env dc task b i))
              (snd (io_found env dc task b i)) (env_congested env c))"
proof -
  let ?dc' = "fst (io_found env dc task b i)" and ?task' = "snd (io_found env dc task b i)"
  have run: "sequential_io ?task' = sequential (ios ?dc' i)"
    by (simp add: io_found_task io_found_sequential)
  have flds: "sequential_cutoff ?dc' = sequential_cutoff dc"
             "sequential_io_avg ?task' = sequential_io_avg task"
    using io_found_fields[of env dc task b i] by simp_all
  have last: "bypass_after_detect ?dc' ?task' (env_congested env c)"
    if "sequential_cutoff dc \<noteq> 0" "sequential_cutoff dc \<le> sequential (ios ?dc' i)"
    using that bypass_when_run_reaches_cutoff[of ?dc' ?task'] run flds by simp
  show ?thesis
    using io_lookup_SomeD[OF hit] check_should_bypass_hit[OF hit reach, of task]
          io_found_stamp[of env dc task b i] io_found_sequential[of env dc task b i]
          bypass_after_detect_iff[of ?dc' ?task' "env_congested env c"] run flds last
    by simp
qed

lemma example_hit: "io_lookup example_env (example_dc 4096) example_bio = Some 0"
  by (simp add: io_lookup_def example_env_def example_dc_def example_bio_def iohash_def
      time_before_def)

lemma example_uncongested: "env_congested example_env uncongested_cs = 0"
  by (simp add: env_congested_def bch_get_congested_def uncongested_cs_def)

lemma example_reach:
  "early_decision example_env uncongested_cs (example_dc 4096) example_bio 0 = None"
  by (simp add: early_decision_def example_env_def example_dc_def example_bio_def
      uncongested_cs_def CUTOFF_CACHE_ADD_def op_is_write_def bio_sectors_def Let_def)

lemma example_run:
  "sequential (ios (fst (io_found example_env (example_dc 4096) task example_bio 0)) 0) = 8192"
  by (simp add: io_found_sequential sequential_add_def example_dc_def example_bio_def)

lemma example_bypass: "bypass_after_detect
    (fst (io_found example_env (example_dc 4096) (example_task 8388608) example_bio 0))
    (snd (io_found example_env (example_dc 4096) (example_task 8388608) example_bio 0)) 0"
  by (simp add: io_found_def bypass_after_detect_def example_dc_def example_bio_def
      example_task_def sequential_add_def Let_def)

text \<open>
  C5 as stated fails in its last part: the request can bypass although the run has not
  reached the cutoff. With a cutoff of 4 MiB, no congestion, a hit on an entry whose run
  is 4 KiB and a 4 KiB write, the run becomes 8 KiB; the task's average sequential I/O of
  8 MiB makes the request bypass all the same.
\<close>

theorem check_should_bypass_average_counterexample:
  "io_lookup example_env (example_dc 4096) example_bio = Some 0
   \<and> map_option fst (check_should_bypass example_env uncongested_cs (example_dc 4096)
        (example_task 8388608) example_bio) = Some True
   \<and> map_option (\<lambda>r. sequential (ios (fst (snd r)) 0))
        (check_should_bypass example_env uncongested_cs (example_dc 4096)
          (example_task 8388608) example_bio) = Some 8192
   \<and> sequential_cutoff (example_dc 4096) = 4194304
   \<and> \<not> (sequential_cutoff (example_dc 4096) \<le> 8192)"
  using check_should_bypass_hit[OF example_hit, of uncongested_cs "example_task 8388608"]
  by (simp add: example_hit example_uncongested example_reach example_bypass example_run)
     (simp add: example_dc_def)

theorem sequential_detector_hit_witness:
  "io_lookup example_env (example_dc 4096) example_bio = Some 0
   \<and> early_decision example_env uncongested_cs (example_dc 4096) example_bio
        (env_congested example_env uncongested_cs) = None
   \<and> map_option fst (check_should_bypass example_env uncongested_cs (example_dc 4096)
        (example_task 8388608) example_bio) = Some True
   \<and> sequential (ios (fst (io_found example_env (example_dc 4096) (example_task 8388608)
        example_bio 0)) 0) = 8192"
  using sequential_detector_hit[of example_env "example_dc 4096" example_bio 0 uncongested_cs
          "example_task 8388608"]
  by (simp add: example_hit example_uncongested example_reach example_bypass example_run)

subsection \<open>Blockdev volumes: no space\<close>

text \<open>
  C8: for a blockdev volume, a write bio that carries data, is not a discard and whose
  call of \<open>bch_disk_reservation_get\<close> fails leaves \<open>__blockdev_volume_make_request\<close>
  with the failed reservation as its only action and \<open>search_free\<close> as continuation:
  no write operation is started, \<open>iop.error\<close> is \<open>-ENOSPC\<close>, and \<open>search_free\<close>
  completes the bio to its submitter with that error.
\<close>

theorem blockdev_volume_enospc:
  assumes "bi_size b \<noteq> 0" and "op_is_write (bi_op b)" and "bi_op b \<noteq> REQ_OP_DISCARD"
      and "reservation_get (bio_sectors b) \<noteq> None"
  shows "fst (blockdev_volume_make_request reservation_get inum b)
           = [Disk_reservation_get (bio_sectors b) (reservation_get (bio_sectors b)),
              Continue_at Search_free]
     \<and> \<not> list_ex is_insert (fst (blockdev_volume_make_request reservation_get inum b))
     \<and> iop_error (snd (blockdev_volume_make_request reservation_get inum b)) = Some ENOSPC
     \<and> fst (search_free (snd (blockdev_volume_make_request reservation_get inum b)))
           = [Bio_endio (b\<lparr>bi_error := Some ENOSPC\<rparr>)]"
  using assms
  by (simp add: blockdev_volume_make_request_def Let_def is_insert_def search_free_def
      bio_complete_def search_alloc_def)

theorem blockdev_volume_enospc_witness:
  "bi_size example_bio \<noteq> 0 \<and> op_is_write (bi_op example_bio)
   \<and> bi_op example_bio \<noteq> REQ_OP_DISCARD
   \<and> fst (search_free (snd (blockdev_volume_make_request (\<lambda>_. Some ENOSPC) 7 example_bio)))
       = [Bio_endio (example_bio\<lparr>bi_error := Some ENOSPC\<rparr>)]
   \<and> fst (blockdev_volume_make_request (\<lambda>_. Some ENOSPC) 7 example_bio)
       = [Disk_reservation_get 8 (Some ENOSPC), Continue_at Search_free]"
  using blockdev_volume_enospc[of example_bio "\<lambda>_. Some ENOSPC" 7]
  by (simp add: example_bio_def op_is_write_def bio_sectors_def)

subsection \<open>Cached devices: zero-length flushes\<close>

text \<open>
  C6 as stated fails in "no cache traffic": for a device attached to a cache set the code
  first asks for a flush of the cache set's journal, then submits the flush to the backing
  device.
\<close>

theorem cached_dev_flush_journal_counterexample:
  "bi_size flush_bio = 0 \<and> req_preflush flush_bio
   \<and> map_option fst (cached_dev_make_request example_env example_wenv uncongested_cs
        (example_dc 0) (example_task 0) 7 flush_bio)
      = Some [Journal_flush_async,
              Closure_bio_submit (flush_bio\<lparr>bi_sector := 16, bi_bdev := Backing_bdev\<rparr>),
              Continue_at Cached_dev_bio_complete]
   \<and> map_option (\<lambda>r. list_ex is_cache_traffic (fst r))
        (cached_dev_make_request example_env example_wenv uncongested_cs
          (example_dc 0) (example_task 0) 7 flush_bio) = Some True"
  by (simp add: cached_dev_make_request_def cached_dev_get_def example_dc_def flush_bio_def
      search_alloc_def Let_def is_cache_traffic_def redirected_def)

text \<open>
  C6, amended: for a cached device, a bio with \<open>bi_size = 0\<close> carrying \<open>PREFLUSH\<close>
  results, when the device is attached to a cache set, in one asynchronous flush of the
  cache set's journal followed by exactly one flush submitted to the backing device, and,
  when it is not attached (and the bio is not a discard the backing device cannot take),
  in exactly one flush submitted to the backing device; in both cases there is no
  extents-tree lookup, no insert and no bypass decision.
\<close>

theorem cached_dev_flush:
  assumes "bi_size b = 0" and "req_preflush b"
  shows "(count dc \<noteq> 0 \<longrightarrow>
            map_option fst (cached_dev_make_request env wenv c dc task inum b)
              = Some [Journal_flush_async, Closure_bio_submit (redirected dc b),
                      Continue_at Cached_dev_bio_complete])
     \<and> (count dc = 0 \<and> (bi_op b \<noteq> REQ_OP_DISCARD \<or> backing_discard dc) \<longrightarrow>
            map_option fst (cached_dev_make_request env wenv c dc task inum b)
              = Some [Generic_make_request (redirected dc b)])
     \<and> (count dc \<noteq> 0 \<or> bi_op b \<noteq> REQ_OP_DISCARD \<or> backing_discard dc \<longrightarrow>
          (case cached_dev_make_request env wenv c dc task inum b of
             None \<Rightarrow> False
           | Some (evs, so, dc', task') \<Rightarrow>
               length (filter is_backing_submit evs) = 1
               \<and> \<not> list_ex is_tree_lookup evs \<and> \<not> list_ex is_insert evs
               \<and> task' = task \<and> ios dc' = ios dc \<and> io_hash dc' = io_hash dc
               \<and> io_lru dc' = io_lru dc))
     \<and> bi_bdev (redirected dc b) = Backing_bdev \<and> bi_size (redirected dc b) = 0
     \<and> req_preflush (redirected dc b)"
  using assms
  by (auto simp: cached_dev_make_request_def cached_dev_get_def Let_def redirected_def
      search_alloc_def is_backing_submit_def is_tree_lookup_def is_insert_def)

theorem cached_dev_flush_witness:
  "bi_size flush_bio = 0 \<and> req_preflush flush_bio \<and> count (example_dc 0) \<noteq> 0
   \<and> map_option fst (cached_dev_make_request example_env example_wenv uncongested_cs
        (example_dc 0) (example_task 0) 7 flush_bio)
      = Some [Journal_flush_async, Closure_bio_submit (redirected (example_dc 0) flush_bio),
              Continue_at Cached_dev_bio_complete]
   \<and> count ((example_dc 0)\<lparr>count := 0\<rparr>) = 0 \<and> bi_op flush_bio \<noteq> REQ_OP_DISCARD
   \<and> map_option fst (cached_dev_make_request example_env example_wenv uncongested_cs
        ((example_dc 0)\<lparr>count := 0\<rparr>) (example_task 0) 7 flush_bio)
      = Some [Generic_make_request (redirected ((example_dc 0)\<lparr>count := 0\<rparr>) flush_bio)]"
  using cached_dev_flush[of flush_bio "example_dc 0" example_env example_wenv uncongested_cs
      "example_task 0" 7]
    cached_dev_flush[of flush_bio "(example_dc 0)\<lparr>count := 0\<rparr>" example_env example_wenv
      uncongested_cs "example_task 0" 7]
  by (simp add: flush_bio_def example_dc_def)

subsection \<open>The shrinker and the reserve\<close>

lemma node_upd_fields [simp]:
  "btree_cache_used (node_upd b f c) = btree_cache_used c"
  "btree_cache_reserve (node_upd b f c) = btree_cache_reserve c"
  "btree_pages (node_upd b f c) = btree_pages c"
  "btree_cache_table (node_upd b f c) = btree_cache_table c"
  "btree_cache (node_upd b f c) = btree_cache c"
  "btree_cache_freeable (node_upd b f c) = btree_cache_freeable c"
  "btree_cache_freed (node_upd b f c) = btree_cache_freed c"
  "heap_next (node_upd b f c) = heap_next c"
  "nodes (node_upd b f c) = (nodes c)(b := f (nodes c b))"
  by (simp_all add: node_upd_def)

lemma lock_upd_fields [simp]:
  "btree_cache_used (lock_upd b f c) = btree_cache_used c"
  "btree_cache_reserve (lock_upd b f c) = btree_cache_reserve c"
  "btree_pages (lock_upd b f c) = btree_pages c"
  "btree_cache_table (lock_upd b f c) = btree_cache_table c"
  "btree_cache (lock_upd b f c) = btree_cache c"
  "btree_cache_freeable (lock_upd b f c) = btree_cache_freeable c"
  "btree_cache_freed (lock_upd b f c) = btree_cache_freed c"
  "heap_next (lock_upd b f c) = heap_next c"
  "flags (nodes (lock_upd b f c) n) = flags (nodes c n)"
  "key (nodes (lock_upd b f c) n) = key (nodes c n)"
  by (simp_all add: lock_upd_def)

lemma mca_reap_notrace_fields [simp]:
  "btree_cache_used (snd (mca_reap_notrace c b fl)) = btree_cache_used c"
  "btree_cache_reserve (snd (mca_reap_notrace c b fl)) = btree_cache_reserve c"
  "btree_pages (snd (mca_reap_notrace c b fl)) = btree_pages c"
  "btree_cache_table (snd (mca_reap_notrace c b fl)) = btree_cache_table c"
  "btree_cache (snd (mca_reap_notrace c b fl)) = btree_cache c"
  "btree_cache_freeable (snd (mca_reap_notrace c b fl)) = btree_cache_freeable c"
  "btree_cache_freed (snd (mca_reap_notrace c b fl)) = btree_cache_freed c"
  "heap_next (snd (mca_reap_notrace c b fl)) = heap_next c"
  by (simp_all add: mca_reap_notrace_def Let_def split: option.splits)

lemma mca_reap_notrace_clean:
  "fst (mca_reap_notrace c b False) \<Longrightarrow>
     \<not> node_dirty (flags (nodes (snd (mca_reap_notrace c b False)) b))"
  by (auto simp: mca_reap_notrace_def Let_def wait_on_write_in_flight_def lock_upd_def
      split: option.splits if_splits)

lemma mca_data_free_fields [simp]:
  "btree_cache_used (mca_data_free c b) = btree_cache_used c - 1"
  "btree_cache_reserve (mca_data_free c b) = btree_cache_reserve c"
  "btree_pages (mca_data_free c b) = btree_pages c"
  "btree_cache_table (mca_data_free c b) = btree_cache_table c"
  "heap_next (mca_data_free c b) = heap_next c"
  "flags (nodes (mca_data_free c b) n) = flags (nodes c n)"
  "key (nodes (mca_data_free c b) n) = key (nodes c n)"
  by (simp_all add: mca_data_free_def list_move_freed_def list_del_def Let_def)

lemma unlock_write_intent_fields [simp]:
  "btree_cache_used (unlock_write_intent b c) = btree_cache_used c"
  "btree_cache_reserve (unlock_write_intent b c) = btree_cache_reserve c"
  "btree_pages (unlock_write_intent b c) = btree_pages c"
  "btree_cache_table (unlock_write_intent b c) = btree_cache_table c"
  "btree_cache (unlock_write_intent b c) = btree_cache c"
  "btree_cache_freeable (unlock_write_intent b c) = btree_cache_freeable c"
  "btree_cache_freed (unlock_write_intent b c) = btree_cache_freed c"
  "heap_next (unlock_write_intent b c) = heap_next c"
  "flags (nodes (unlock_write_intent b c) n) = flags (nodes c n)"
  "key (nodes (unlock_write_intent b c) n) = key (nodes c n)"
  by (simp_all add: unlock_write_intent_def)

lemma mca_hash_remove_Inr:
  "mca_hash_remove c b = Inr c' \<Longrightarrow>
     btree_cache_used c' = btree_cache_used c \<and> btree_cache_reserve c' = btree_cache_reserve c
     \<and> btree_pages c' = btree_pages c"
  by (auto simp: mca_hash_remove_def Let_def split: if_splits)

lemma mca_hash_remove_clean:
  "\<not> node_dirty (flags (nodes c b)) \<Longrightarrow> \<exists>c'. mca_hash_remove c b = Inr c'"
  by (simp add: mca_hash_remove_def Let_def)

lemma unat_word_succ:
  "(freed :: u64) < nr \<Longrightarrow> unat (freed + 1) = Suc (unat freed)"
proof -
  assume "freed < nr"
  then have "unat freed < unat nr" by (simp add: word_less_nat_alt)
  moreover have "unat nr < 2 ^ 64" using unsigned_less[of nr, where ?'a=nat] by simp
  ultimately have "unat freed + unat (1::u64) < 2 ^ 64" by simp
  then have "unat (freed + 1) = unat freed + unat (1::u64)"
    by (simp add: unat_word_ariths)
  then show ?thesis by simp
qed


lemma counters_after_refl:
  "unat freed \<le> unat nr \<Longrightarrow> btree_cache_used c' = btree_cache_used c
     \<Longrightarrow> btree_cache_reserve c' = btree_cache_reserve c \<Longrightarrow> btree_pages c' = btree_pages c
     \<Longrightarrow> counters_after c freed nr c' freed"
  by (simp add: counters_after_def)

lemma counters_after_step:
  assumes lt: "freed < nr"
      and used: "btree_cache_used c1 = btree_cache_used c - 1"
      and res: "btree_cache_reserve c1 = btree_cache_reserve c"
      and pg: "btree_pages c1 = btree_pages c"
      and rest: "counters_after c1 (freed + 1) nr c' freed'"
  shows "counters_after c freed nr c' freed'"
proof -
  have s: "unat (freed + 1) = Suc (unat freed)" using lt by (rule unat_word_succ)
  from rest have le: "Suc (unat freed) \<le> unat freed'" and le2: "unat freed' \<le> unat nr"
    and u: "btree_cache_used c' = btree_cache_used c1 - of_nat (unat freed' - Suc (unat freed))"
    and r: "btree_cache_reserve c' = btree_cache_reserve c1" and p: "btree_pages c' = btree_pages c1"
    by (simp_all add: counters_after_def s)
  have "unat freed' - unat freed = Suc (unat freed' - Suc (unat freed))" using le by simp
  then have "(of_nat (unat freed' - unat freed) :: u32)
      = 1 + of_nat (unat freed' - Suc (unat freed))" by simp
  then have "btree_cache_used c' = btree_cache_used c - of_nat (unat freed' - unat freed)"
    using u used by simp
  then show ?thesis using le le2 r p res pg by (simp add: counters_after_def)
qed

lemma succ_le: "(freed :: u64) < nr \<Longrightarrow> unat (freed + 1) \<le> unat nr"
  by (simp add: unat_word_succ word_less_nat_alt)

lemma scan_freeable_counters:
  "unat freed \<le> unat nr \<Longrightarrow> scan_freeable nr bs c i freed touched = (c', freed', touched')
     \<Longrightarrow> counters_after c freed nr c' freed'"
proof (induction nr bs c i freed touched rule: scan_freeable.induct)
  case (1 nr c i freed touched)
  then show ?case by (simp add: counters_after_refl)
next
  case (2 nr b bs c i freed touched)
  show ?case
  proof (cases "nr \<le> freed")
    case True
    with "2.prems" show ?thesis by (simp add: counters_after_refl)
  next
    case False
    then have lt: "freed < nr" by simp
    show ?thesis
    proof (cases "3 < i + 1 \<and> fst (mca_reap_notrace c b False)")
      case True
      let ?c1 = "unlock_write_intent b (mca_data_free (snd (mca_reap_notrace c b False)) b)"
      have eq: "scan_freeable nr bs ?c1 (i + 1) (freed + 1) (touched + 1) = (c', freed', touched')"
        using "2.prems"(2) False True by simp
      have "counters_after ?c1 (freed + 1) nr c' freed'"
        using "2.IH"(1)[OF False True succ_le[OF lt] eq] .
      then show ?thesis
        by (rule counters_after_step[OF lt, rotated -1]) simp_all
    next
      case F2: False
      let ?c1 = "if 3 < i + 1 then snd (mca_reap_notrace c b False) else c"
      have eq: "scan_freeable nr bs ?c1 (i + 1) freed (touched + 1) = (c', freed', touched')"
        using "2.prems"(2) False F2 by (simp split: if_splits)
      have "counters_after ?c1 freed nr c' freed'"
        using "2.IH"(2)[OF False F2 "2.prems"(1) eq] .
      then show ?thesis by (simp add: counters_after_def split: if_splits)
    qed
  qed
qed



lemma lru_ok_step:
  assumes "freed < nr" "btree_cache_used c1 = btree_cache_used c - 1"
    "btree_cache_reserve c1 = btree_cache_reserve c" "btree_pages c1 = btree_pages c"
    "lru_ok c1 (freed + 1) nr r"
  shows "lru_ok c freed nr r"
  using assms counters_after_step[of freed nr c1 c]
  by (auto simp: lru_ok_def split: sum.splits)

lemma lru_ok_frame:
  assumes "btree_cache_used c1 = btree_cache_used c"
    "btree_cache_reserve c1 = btree_cache_reserve c" "btree_pages c1 = btree_pages c"
    "lru_ok c1 freed nr r"
  shows "lru_ok c freed nr r"
  using assms by (auto simp: lru_ok_def counters_after_def split: sum.splits)

lemma clear_accessed_fields [simp]:
  "btree_cache_used (clear_btree_node_accessed b c) = btree_cache_used c"
  "btree_cache_reserve (clear_btree_node_accessed b c) = btree_cache_reserve c"
  "btree_pages (clear_btree_node_accessed b c) = btree_pages c"
  by (simp_all add: clear_btree_node_accessed_def)

lemma scan_lru_counters:
  "unat freed \<le> unat nr \<Longrightarrow> lru_ok c freed nr (scan_lru sc nr pre rest c freed touched)"
proof (induction sc nr pre rest c freed touched rule: scan_lru.induct)
  case (1 sc nr pre c freed touched)
  then show ?case by (simp add: lru_ok_def counters_after_refl)
next
  case (2 sc nr pre b ts c freed touched)
  show ?case
  proof (cases "nr \<le> freed")
    case True
    with "2.prems" show ?thesis by (simp add: lru_ok_def counters_after_refl)
  next
    case False
    then have lt: "freed < nr" by simp
    show ?thesis
    proof (cases "\<not> node_accessed (flags (nodes c b)) \<and> fst (mca_reap c b False)")
      case True
      let ?cf = "mca_data_free ((snd (mca_reap c b False))\<lparr>btree_cache := save_position pre b ts\<rparr>) b"
      have clean: "\<not> node_dirty (flags (nodes ?cf b))"
        using True mca_reap_notrace_clean[of c b] by (simp add: mca_reap_def)
      then obtain c2 where c2: "mca_hash_remove ?cf b = Inr c2"
        using mca_hash_remove_clean by blast
      have cnt: "btree_cache_used (unlock_write_intent b c2) = btree_cache_used c - 1"
                "btree_cache_reserve (unlock_write_intent b c2) = btree_cache_reserve c"
                "btree_pages (unlock_write_intent b c2) = btree_pages c"
        using mca_hash_remove_Inr[OF c2] by (simp_all add: mca_reap_def)
      have stop: "lru_ok c freed nr (Inr (unlock_write_intent b c2, freed + 1, touched + 1))"
        by (rule lru_ok_step[OF lt cnt])
           (simp add: lru_ok_def counters_after_refl succ_le[OF lt])
      show ?thesis
      proof (cases "nr \<le> freed + 1")
        case T3: True
        then show ?thesis using False True c2 stop by simp
      next
        case F3: False
        show ?thesis
        proof (cases "gfp_io sc \<or> mutex_trylock sc (unat (freed + 1))")
          case T4: True
          have "lru_ok (unlock_write_intent b c2) (freed + 1) nr
                  (scan_lru sc nr [] (removeAll b (save_position pre b ts))
                     (unlock_write_intent b c2) (freed + 1) (touched + 1))"
            using "2.IH"(1)[OF False True c2 F3 T4 succ_le[OF lt]] .
          then have "lru_ok c freed nr
                  (scan_lru sc nr [] (removeAll b (save_position pre b ts))
                     (unlock_write_intent b c2) (freed + 1) (touched + 1))"
            by (rule lru_ok_step[OF lt cnt])
          then show ?thesis using False True c2 F3 T4 by simp
        next
          case F4: False
          then show ?thesis using False True c2 F3 stop by simp
        qed
      qed
    next
      case F2: False
      let ?c1 = "clear_btree_node_accessed b
             (if node_accessed (flags (nodes c b)) then c else snd (mca_reap c b False))"
      have "lru_ok ?c1 freed nr (scan_lru sc nr (pre @ [b]) ts ?c1 freed (touched + 1))"
        using "2.IH"(2)[OF False F2 "2.prems"] .
      then have "lru_ok c freed nr (scan_lru sc nr (pre @ [b]) ts ?c1 freed (touched + 1))"
        by (rule lru_ok_frame[rotated -1]) (simp_all add: mca_reap_def)
      moreover have "scan_lru sc nr pre (b # ts) c freed touched
          = scan_lru sc nr (pre @ [b]) ts ?c1 freed (touched + 1)"
        using False F2 by (simp del: de_Morgan_conj)
      ultimately show ?thesis by simp
    qed
  qed
qed

lemma sint_big_neg: "2 ^ 31 \<le> uint (w::32 word) \<Longrightarrow> sint w < 0"
proof -
  assume a: "2 ^ 31 \<le> uint w"
  have "sint w = signed_take_bit 31 (uint w)" by (simp add: sint_uint)
  also have "\<dots> \<le> uint w - 2 ^ Suc 31" using a by (rule signed_take_bit_int_less_eq)
  also have "\<dots> < 0" using uint_lt2p[of w] by simp
  finally show ?thesis .
qed

lemma sint_pos_uint: "0 \<le> sint (w::32 word) \<Longrightarrow> sint w = uint w"
proof -
  assume a: "0 \<le> sint w"
  have "uint w < 2 ^ 31" using a sint_big_neg[of w] by (cases "uint w < 2 ^ 31") auto
  moreover have "- (2 ^ 31) \<le> uint w"
  proof -
    have "- (2 ^ 31) \<le> (0::int)" by simp
    also have "0 \<le> uint w" by simp
    finally show ?thesis .
  qed
  ultimately have "signed_take_bit 31 (uint w) = uint w"
    by (intro signed_take_bit_int_eq_self)
  then show ?thesis by (simp add: sint_uint)
qed

lemma scast_pos: "0 \<le> sint (w::32 word) \<Longrightarrow> unat (scast w :: 64 word) = unat w"
proof -
  assume a: "0 \<le> sint w"
  have "(scast w :: 64 word) = ucast w"
    by (simp add: scast_eq sint_pos_uint[OF a])
  moreover have "uint (ucast w :: 64 word) = uint w"
    by (rule uint_up_ucast) (simp add: is_up)
  ultimately show ?thesis by (simp add: unat_eq_nat_uint del: nat_uint_eq)
qed


lemma mca_can_free_nonneg: "0 \<le> sint (mca_can_free c)"
  by (simp add: mca_can_free_def Let_def int_gt0_def)

lemma mca_can_free_le:
  assumes r: "unat (btree_cache_reserve c) < 2 ^ 31"
  shows "unat (mca_can_free c) \<le> unat (btree_cache_used c) - unat (btree_cache_reserve c)"
proof (cases "int_gt0 (btree_cache_used c - btree_cache_reserve c)")
  case False
  then show ?thesis by (simp add: mca_can_free_def Let_def)
next
  case True
  let ?d = "btree_cache_used c - btree_cache_reserve c"
  have small: "uint ?d < 2 ^ 31"
    using True sint_big_neg[of ?d] by (cases "uint ?d < 2 ^ 31") (auto simp: int_gt0_def)
  then have small': "unat ?d < 2 ^ 31"
    by (simp add: unat_eq_nat_uint del: nat_uint_eq)
  have ge: "unat (btree_cache_reserve c) \<le> unat (btree_cache_used c)"
  proof (rule ccontr)
    assume "\<not> ?thesis"
    then have "unat ?d = unat (btree_cache_used c) + 2 ^ 32 - unat (btree_cache_reserve c)"
      by (simp add: unat_sub_if_size word_size)
    with r small' show False by simp
  qed
  then have "unat ?d = unat (btree_cache_used c) - unat (btree_cache_reserve c)"
    by (simp add: unat_sub_if_size)
  with True show ?thesis by (simp add: mca_can_free_def Let_def)
qed

lemma unat_sub_of_nat:
  "n \<le> unat (u::u32) \<Longrightarrow> unat (u - of_nat n) = unat u - n"
proof -
  assume a: "n \<le> unat u"
  have lt: "n < 2 ^ 32" using a unsigned_less[of u, where ?'a=nat] by simp
  then have n: "unat (of_nat n :: u32) = n" by (simp add: unat_of_nat)
  then have "(of_nat n :: u32) \<le> u" using a by (simp add: word_le_nat_alt)
  then show ?thesis using n by (simp add: unat_sub)
qed

text \<open>
  C1: for every invocation of \<open>bch_mca_scan\<close> (on a cache set whose reserve is below
  \<open>2^31\<close>, as every value set by \<open>bch_recalc_btree_reserve\<close> is) the call returns
  without a fault and the number of nodes freed is at most \<open>max(0, used - reserve)\<close>
  (the truncated difference of the natural numbers); \<open>btree_cache_used\<close> drops by exactly
  the number freed, so a population that was at or above the reserve stays there; and
  \<open>bch_mca_count\<close> reports at most \<open>max(0, used - reserve)\<close> times the pages per node.
\<close>

theorem bch_mca_scan_keeps_reserve:
  assumes r: "unat (btree_cache_reserve c) < 2 ^ 31"
  shows "(case bch_mca_scan c sc of
            Inl _ \<Rightarrow> False
          | Inr out \<Rightarrow>
              unat (scan_freed out)
                \<le> unat (btree_cache_used c) - unat (btree_cache_reserve c)
              \<and> unat (btree_cache_used (scan_cs out))
                  = unat (btree_cache_used c) - unat (scan_freed out)
              \<and> btree_cache_reserve (scan_cs out) = btree_cache_reserve c
              \<and> (unat (btree_cache_reserve c) \<le> unat (btree_cache_used c) \<longrightarrow>
                   unat (btree_cache_reserve c) \<le> unat (btree_cache_used (scan_cs out))))
     \<and> unat (bch_mca_count c)
          \<le> (unat (btree_cache_used c) - unat (btree_cache_reserve c)) * unat (btree_pages c)"
proof -
  let ?U = "unat (btree_cache_used c)" and ?R = "unat (btree_cache_reserve c)"
  have cf: "unat (mca_can_free c) \<le> ?U - ?R" using r by (rule mca_can_free_le)
  have cf64: "unat (scast (mca_can_free c) :: u64) = unat (mca_can_free c)"
    by (rule scast_pos) (rule mca_can_free_nonneg)
  have count: "unat (bch_mca_count c) \<le> (?U - ?R) * unat (btree_pages c)"
  proof -
    have "unat (scast (mca_can_free c) * btree_pages c :: u64)
        \<le> unat (mca_can_free c) * unat (btree_pages c)"
      by (simp add: unat_word_ariths cf64)
    also have "\<dots> \<le> (?U - ?R) * unat (btree_pages c)"
      using cf by (rule mult_le_mono1)
    finally show ?thesis
      by (simp add: bch_mca_count_def)
  qed
  have scan: "case bch_mca_scan c sc of
            Inl _ \<Rightarrow> False
          | Inr out \<Rightarrow>
              unat (scan_freed out) \<le> ?U - ?R
              \<and> unat (btree_cache_used (scan_cs out)) = ?U - unat (scan_freed out)
              \<and> btree_cache_reserve (scan_cs out) = btree_cache_reserve c"
  proof (cases "btree_shrinker_disabled c \<or> btree_cache_alloc_lock c \<noteq> None
                  \<or> (\<not> gfp_io sc \<and> \<not> mutex_trylock sc 0)")
    case True
    then show ?thesis by (auto simp: bch_mca_scan_def)
  next
    case False
    define nr where "nr = min (nr_to_scan sc div btree_pages c) (scast (mca_can_free c) :: u64)"
    obtain c1 f1 t1 where s1: "scan_freeable nr (btree_cache_freeable c) c 0 0 0 = (c1, f1, t1)"
      by (cases "scan_freeable nr (btree_cache_freeable c) c 0 0 0") auto
    have k1: "counters_after c 0 nr c1 f1"
      by (rule scan_freeable_counters[OF _ s1]) simp
    have "lru_ok c1 f1 nr (scan_lru sc nr [] (btree_cache c1) c1 f1 t1)"
      using k1 by (intro scan_lru_counters) (simp add: counters_after_def)
    then obtain c2 f2 t2 where s2: "scan_lru sc nr [] (btree_cache c1) c1 f1 t1 = Inr (c2, f2, t2)"
      and k2: "counters_after c1 f1 nr c2 f2"
      by (auto simp: lru_ok_def split: sum.splits)
    have nrle: "unat nr \<le> unat (mca_can_free c)"
      unfolding nr_def using cf64 by (simp add: min_def word_le_nat_alt split: if_splits)
    have f2le: "unat f2 \<le> ?U - ?R" using k2 nrle cf by (simp add: counters_after_def)
    have "btree_cache_used c2 = btree_cache_used c - of_nat (unat f1) - of_nat (unat f2 - unat f1)"
      using k1 k2 by (simp add: counters_after_def)
    also have "\<dots> = btree_cache_used c - of_nat (unat f1 + (unat f2 - unat f1))"
      by (simp only: of_nat_add diff_diff_eq)
    also have "unat f1 + (unat f2 - unat f1) = unat f2"
      using k2 by (simp add: counters_after_def)
    finally have u2: "btree_cache_used c2 = btree_cache_used c - of_nat (unat f2)" .
    have "unat f2 \<le> ?U" using f2le by simp
    then have "unat (btree_cache_used c - of_nat (unat f2)) = ?U - unat f2"
      by (rule unat_sub_of_nat)
    then have "unat (btree_cache_used c2) = ?U - unat f2"
      by (simp only: u2)
    moreover have "btree_cache_reserve c2 = btree_cache_reserve c"
      using k1 k2 by (simp add: counters_after_def)
    moreover have "bch_mca_scan c sc = Inr \<lparr>scan_ret = f2 * btree_pages c2, scan_freed = f2,
        scan_touched = t2, scan_can_free = scast (mca_can_free c), scan_cs = c2\<rparr>"
      using False s1 s2 by (auto simp: bch_mca_scan_def Let_def nr_def)
    ultimately show ?thesis using f2le by simp
  qed
  show ?thesis
  proof (cases "bch_mca_scan c sc")
    case (Inl a)
    with scan show ?thesis by simp
  next
    case (Inr out)
    with scan have a: "unat (scan_freed out) \<le> ?U - ?R"
      and b: "unat (btree_cache_used (scan_cs out)) = ?U - unat (scan_freed out)"
      and d: "btree_cache_reserve (scan_cs out) = btree_cache_reserve c" by simp_all
    have e: "?R \<le> ?U \<longrightarrow> ?R \<le> unat (btree_cache_used (scan_cs out))"
      using a b by arith
    show ?thesis using Inr a b d e count by simp
  qed
qed

theorem bch_mca_scan_keeps_reserve_witness:
  "unat (btree_cache_reserve example_cache_set) < 2 ^ 31
   \<and> map_sum id scan_freed (bch_mca_scan example_cache_set example_sc) = Inr 4
   \<and> map_sum id (\<lambda>out. btree_cache_used (scan_cs out))
         (bch_mca_scan example_cache_set example_sc) = Inr 16
   \<and> unat (bch_mca_count example_cache_set) \<le> 16"
proof -
  have h: "unat (btree_cache_reserve example_cache_set) < 2 ^ 31"
    by (simp add: example_cache_set_def)
  have f: "map_sum id scan_freed (bch_mca_scan example_cache_set example_sc) = Inr 4"
    by code_simp
  have u: "map_sum id (\<lambda>out. btree_cache_used (scan_cs out))
         (bch_mca_scan example_cache_set example_sc) = Inr 16"
    by code_simp
  have "unat (bch_mca_count example_cache_set) \<le> 16"
    using bch_mca_scan_keeps_reserve[OF h, of example_sc]
    by (simp add: example_cache_set_def)
  with h f u show ?thesis by simp
qed

subsection \<open>Errors of bch\_btree\_node\_get\<close>

lemma lock_upd_node [simp]:
  "nodes (lock_upd b f c) n = (if n = b then (nodes c b)\<lparr>lock := f (lock (nodes c b))\<rparr> else nodes c n)"
  by (simp add: lock_upd_def node_upd_def)

lemma drop_parent_keeps [simp]:
  "key (nodes (fst (drop_parent_read_lock c iter l)) n) = key (nodes c n)"
  "level (nodes (fst (drop_parent_read_lock c iter l)) n) = level (nodes c n)"
  "flags (nodes (fst (drop_parent_read_lock c iter l)) n) = flags (nodes c n)"
  by (simp_all add: drop_parent_read_lock_def btree_node_unlock_def iter_lock_upd_def
      split: option.splits)

lemma six_lock_unlock_type:
  "six_unlock_type t (six_lock_type t l) =
     (case t of SIX_LOCK_read \<Rightarrow> l
              | SIX_LOCK_intent \<Rightarrow> l\<lparr>intent_held := False\<rparr>
              | SIX_LOCK_write \<Rightarrow> l\<lparr>write_held := False\<rparr>)"
  by (cases t) (simp_all add: six_unlock_type_def six_lock_type_def six_unlock_read_def
      six_unlock_intent_def six_unlock_write_def)

lemma lock_and_unlock_released:
  "readers (lock (nodes (lock_and_unlock t b c) b)) = readers (lock (nodes c b))
   \<and> (t = SIX_LOCK_intent \<longrightarrow> \<not> intent_held (lock (nodes (lock_and_unlock t b c) b)))
   \<and> (t = SIX_LOCK_write \<longrightarrow> \<not> write_held (lock (nodes (lock_and_unlock t b c) b)))"
  by (cases t) (simp_all add: lock_and_unlock_def six_lock_unlock_type)

text \<open>
  C3: for every call of \<open>bch_btree_node_get\<close> that finds the node in the table and gets
  its lock (at a level below \<open>BTREE_MAX_DEPTH\<close>): if the node's hashed word or level does
  not match the key and level searched for, and the parent is neither still locked nor
  can be relocked, the call returns \<open>-EINTR\<close>; if they match, no race fault is injected
  and the node's read-error flag is set, the call returns \<open>-EIO\<close>. In both cases the
  state returned is the one in which the lock taken on the node has been released again:
  the reader count is as before, and an intent or write lock is not held.
\<close>

theorem bch_btree_node_get_errors:
  assumes found: "mca_find c k = Some b" and depth: "unat lvl < max_depth"
      and locked: "lock_ok e"
  shows "((PTR_HASH (key (nodes c b)) \<noteq> PTR_HASH k \<or> ucast (level (nodes c b)) \<noteq> lvl)
          \<and> nodes_locked (snd (drop_parent_read_lock c iter (unat lvl))) (unat lvl + 1) = None
          \<and> \<not> relock_ok e
        \<longrightarrow> bch_btree_node_get (e # es) max_depth current c iter k lvl lock_type
             = Some (Inr (Inl EINTR,
                 lock_and_unlock lock_type b (fst (drop_parent_read_lock c iter (unat lvl))),
                 snd (drop_parent_read_lock c iter (unat lvl)))))
     \<and> (PTR_HASH (key (nodes c b)) = PTR_HASH k \<and> ucast (level (nodes c b)) = lvl
          \<and> \<not> race_fault e \<and> node_read_error (flags (nodes c b))
        \<longrightarrow> bch_btree_node_get (e # es) max_depth current c iter k lvl lock_type
             = Some (Inr (Inl EIO,
                 lock_and_unlock lock_type b (fst (drop_parent_read_lock c iter (unat lvl))),
                 snd (drop_parent_read_lock c iter (unat lvl)))))
     \<and> readers (lock (nodes (lock_and_unlock lock_type b
            (fst (drop_parent_read_lock c iter (unat lvl)))) b))
         = readers (lock (nodes (fst (drop_parent_read_lock c iter (unat lvl))) b))
     \<and> (lock_type = SIX_LOCK_intent \<longrightarrow>
          \<not> intent_held (lock (nodes (lock_and_unlock lock_type b
            (fst (drop_parent_read_lock c iter (unat lvl)))) b)))
     \<and> (lock_type = SIX_LOCK_write \<longrightarrow>
          \<not> write_held (lock (nodes (lock_and_unlock lock_type b
            (fst (drop_parent_read_lock c iter (unat lvl)))) b)))"
proof -
  let ?c1 = "fst (drop_parent_read_lock c iter (unat lvl))"
  let ?i1 = "snd (drop_parent_read_lock c iter (unat lvl))"
  have nd: "\<not> max_depth \<le> unat lvl" using depth by simp
  have a: "bch_btree_node_get (e # es) max_depth current c iter k lvl lock_type
             = Some (Inr (Inl EINTR, lock_and_unlock lock_type b ?c1, ?i1))"
    if "PTR_HASH (key (nodes c b)) \<noteq> PTR_HASH k \<or> ucast (level (nodes c b)) \<noteq> lvl"
      and "nodes_locked ?i1 (unat lvl + 1) = None" and "\<not> relock_ok e"
    using that found nd locked
    by (auto simp: Let_def btree_node_relock_def lock_and_unlock_def)
  have b: "bch_btree_node_get (e # es) max_depth current c iter k lvl lock_type
             = Some (Inr (Inl EIO, lock_and_unlock lock_type b ?c1, ?i1))"
    if "PTR_HASH (key (nodes c b)) = PTR_HASH k" "ucast (level (nodes c b)) = lvl"
      "\<not> race_fault e" "node_read_error (flags (nodes c b))"
    using that found nd locked
    by (auto simp: Let_def node_get_tail_def lock_and_unlock_def)
  show ?thesis
    using a b lock_and_unlock_released[of lock_type b ?c1] by blast
qed


lemma example_unlocked_parent:
  "nodes_locked (snd (drop_parent_read_lock c example_iter (unat (0::u32)))) (unat (0::u32) + 1) = None"
  by (simp add: drop_parent_read_lock_def btree_node_unlock_def example_iter_def
      btree_node_read_locked_def)

theorem bch_btree_node_get_errors_witness:
  "mca_find stale_cache_set example_key = Some 1
   \<and> lock_ok example_get_env \<and> \<not> relock_ok example_get_env
   \<and> PTR_HASH (key (nodes stale_cache_set 1)) \<noteq> PTR_HASH example_key
   \<and> map_option (map_sum id fst)
        (bch_btree_node_get [example_get_env] 4 0 stale_cache_set example_iter example_key 0
           SIX_LOCK_read) = Some (Inr (Inl EINTR))
   \<and> mca_find read_error_cache_set example_key = Some 1
   \<and> node_read_error (flags (nodes read_error_cache_set 1))
   \<and> map_option (map_sum id fst)
        (bch_btree_node_get [example_get_env] 4 0 read_error_cache_set example_iter example_key 0
           SIX_LOCK_read) = Some (Inr (Inl EIO))"
proof -
  have f1: "mca_find stale_cache_set example_key = Some 1"
    by (simp add: mca_find_def stale_cache_set_def example_key_def PTR_HASH_def)
  have f2: "mca_find read_error_cache_set example_key = Some 1"
    by (simp add: mca_find_def read_error_cache_set_def example_key_def PTR_HASH_def)
  have l: "lock_ok example_get_env" "\<not> relock_ok example_get_env" "\<not> race_fault example_get_env"
    by (simp_all add: example_get_env_def)
  have m: "PTR_HASH (key (nodes stale_cache_set 1)) \<noteq> PTR_HASH example_key"
    by (simp add: stale_cache_set_def example_cache_set_def idle_btree_def zeroed_btree_def
        example_key_def PTR_HASH_def)
  have r: "node_read_error (flags (nodes read_error_cache_set 1))"
      "PTR_HASH (key (nodes read_error_cache_set 1)) = PTR_HASH example_key"
      "ucast (level (nodes read_error_cache_set 1)) = (0::u32)"
    by (simp_all add: read_error_cache_set_def idle_btree_def zeroed_btree_def)
  have d: "unat (0::u32) < 4" by simp
  show ?thesis
    using bch_btree_node_get_errors[OF f1 d l(1), of example_iter "[]" 0 SIX_LOCK_read]
          bch_btree_node_get_errors[OF f2 d l(1), of example_iter "[]" 0 SIX_LOCK_read]
          f1 f2 l m r example_unlocked_parent
    by simp
qed

subsection \<open>The hash table and the first pointer\<close>

lemma mca_find_ex: "(\<exists>k. mca_find c k = Some b) \<longleftrightarrow> (\<exists>w. btree_cache_table c w = Some b)"
proof
  assume "\<exists>k. mca_find c k = Some b"
  then show "\<exists>w. btree_cache_table c w = Some b" by (auto simp: mca_find_def)
next
  assume "\<exists>w. btree_cache_table c w = Some b"
  then obtain w where "btree_cache_table c w = Some b" ..
  then have "mca_find c \<lparr>extent_is_data = True, v_data0 = w\<rparr> = Some b"
    by (simp add: mca_find_def PTR_HASH_def)
  then show "\<exists>k. mca_find c k = Some b" ..
qed

lemma same_keys_refl [simp]: "same_keys c c"
  by (simp add: same_keys_def)

lemma same_keys_trans: "same_keys c c1 \<Longrightarrow> same_keys c1 c2 \<Longrightarrow> same_keys c c2"
  by (simp add: same_keys_def)

lemma mca_inv_frame:
  assumes "mca_inv c" "same_keys c c'" "lists_set c' \<subseteq> {..<heap_next c}"
  shows "mca_inv c'"
  using assms
  unfolding mca_inv_def hash_inv_def table_wf_def keys_wf_def lists_wf_def same_keys_def
    mca_find_ex
  by (auto simp: subset_iff)

lemma mca_inv_lists: "mca_inv c \<Longrightarrow> lists_set c \<subseteq> {..<heap_next c}"
  by (auto simp: mca_inv_def lists_wf_def)


lemma lists_set_simps [simp]:
  "lists_set (node_upd b f c) = lists_set c"
  "lists_set (lock_upd b g c) = lists_set c"
  "lists_set (unlock_write_intent b c) = lists_set c"
  "lists_set (snd (mca_reap_notrace c b fl)) = lists_set c"
  "lists_set (clear_btree_node_accessed b c) = lists_set c"
  by (simp_all add: lists_set_def clear_btree_node_accessed_def)

lemma lists_set_list_del: "lists_set (list_del b c) = lists_set c - {b}"
  by (auto simp: lists_set_def list_del_def)

lemma lists_set_mca_data_free [simp]: "lists_set (mca_data_free c b) = insert b (lists_set c)"
  by (auto simp: lists_set_def mca_data_free_def list_move_freed_def list_del_def Let_def)

lemma lists_set_mca_data_alloc [simp]: "lists_set (mca_data_alloc env c b) = insert b (lists_set c)"
  by (auto simp: lists_set_def mca_data_alloc_def list_move_freed_def list_move_freeable_def
      list_del_def Let_def)

lemma same_keys_node_upd:
  "key (f (nodes c b)) = key (nodes c b) \<Longrightarrow> same_keys c (node_upd b f c)"
  by (simp add: same_keys_def)

lemma same_keys_lock_upd [simp]: "same_keys c (lock_upd b f c)"
  by (simp add: same_keys_def)

lemma same_keys_unlock [simp]: "same_keys c (unlock_write_intent b c)"
  by (simp add: same_keys_def)

lemma mca_reap_notrace_key [simp]:
  "key (nodes (snd (mca_reap_notrace c b fl)) n) = key (nodes c n)"
  by (simp add: mca_reap_notrace_def Let_def btree_node_write_def wait_on_write_in_flight_def
      split: option.splits)

lemma same_keys_reap [simp]: "same_keys c (snd (mca_reap_notrace c b fl))"
  by (simp add: same_keys_def)

lemma same_keys_data_free [simp]: "same_keys c (mca_data_free c b)"
  by (simp add: same_keys_def)

lemma mca_data_alloc_fields [simp]:
  "btree_cache_table (mca_data_alloc env c b) = btree_cache_table c"
  "heap_next (mca_data_alloc env c b) = heap_next c"
  "key (nodes (mca_data_alloc env c b) n) = key (nodes c n)"
  "flags (nodes (mca_data_alloc env c b) n) = flags (nodes c n)"
  "lock (nodes (mca_data_alloc env c b) n) = lock (nodes c n)"
  by (simp_all add: mca_data_alloc_def list_move_freed_def list_move_freeable_def list_del_def
      Let_def)

lemma same_keys_data_alloc [simp]: "same_keys c (mca_data_alloc env c b)"
  by (simp add: same_keys_def)

lemma same_keys_clear_accessed [simp]: "same_keys c (clear_btree_node_accessed b c)"
  by (simp add: same_keys_def clear_btree_node_accessed_def)

lemma same_keys_list_upd [simp]: "same_keys c (c\<lparr>btree_cache := xs\<rparr>)"
  by (simp add: same_keys_def)

lemma same_keys_list_del [simp]: "same_keys c (list_del b c)"
  by (simp add: same_keys_def list_del_def)

lemma same_keys_alloc_out [simp]: "same_keys c (mca_alloc_out b c)"
  by (simp add: same_keys_def mca_alloc_out_def)

lemma lists_set_alloc_out [simp]: "lists_set (mca_alloc_out b c) = lists_set c"
  by (simp add: mca_alloc_out_def)

lemma same_keys_heap: "same_keys c c' \<Longrightarrow> heap_next c' = heap_next c"
  by (simp add: same_keys_def)

lemma mca_hash_remove_inv:
  assumes inv: "mca_inv c" and r: "mca_hash_remove c b = Inr c'"
  shows "mca_inv c' \<and> PTR_HASH (key (nodes c' b)) = 0 \<and> (\<forall>k. mca_find c' k \<noteq> Some b)
         \<and> heap_next c' = heap_next c \<and> lists_set c' = lists_set c"
proof -
  let ?w = "PTR_HASH (key (nodes c b))"
  from inv have h: "hash_inv c" and t: "table_wf c" and k: "keys_wf c" and l: "lists_wf c"
    by (simp_all add: mca_inv_def)
  have c': "c' = node_upd b (\<lambda>n. n\<lparr>key := (key n)\<lparr>v_data0 := 0\<rparr>\<rparr>)
             ((node_upd b (\<lambda>n. n\<lparr>nsets := 0\<rparr>) c)
                \<lparr>btree_cache_table := rhashtable_remove (node_upd b (\<lambda>n. n\<lparr>nsets := 0\<rparr>) c) b\<rparr>)"
    using r by (simp add: mca_hash_remove_def Let_def split: if_splits)
  have tab: "btree_cache_table c' =
      (if btree_cache_table c ?w = Some b then (btree_cache_table c)(?w := None)
       else btree_cache_table c)"
    by (simp add: c' rhashtable_remove_def Let_def)
  have keyb: "PTR_HASH (key (nodes c' b)) = 0" by (simp add: c' PTR_HASH_def)
  have keyn: "n \<noteq> b \<Longrightarrow> key (nodes c' n) = key (nodes c n)" for n by (simp add: c')
  have isd: "extent_is_data (key (nodes c' n)) = extent_is_data (key (nodes c n))" for n
    by (simp add: c')
  have hp: "heap_next c' = heap_next c" by (simp add: c')
  have ls: "lists_set c' = lists_set c" by (simp add: c' lists_set_def)
  have filed: "btree_cache_table c w = Some n \<Longrightarrow> PTR_HASH (key (nodes c n)) = w" for w n
    using t unfolding table_wf_def by blast
  have nob: "btree_cache_table c' w \<noteq> Some b" for w
  proof
    assume a: "btree_cache_table c' w = Some b"
    show False
    proof (cases "btree_cache_table c ?w = Some b")
      case True
      then have "w \<noteq> ?w" using a by (auto simp: tab split: if_splits)
      moreover have "btree_cache_table c w = Some b" using a True by (simp add: tab split: if_splits)
      ultimately show False using filed by blast
    next
      case False
      then have "btree_cache_table c w = Some b" using a by (simp add: tab)
      then show False using False filed by blast
    qed
  qed
  have other: "btree_cache_table c' w = Some n \<longleftrightarrow> btree_cache_table c w = Some n"
    if "n \<noteq> b" for w n
  proof (cases "btree_cache_table c ?w = Some b")
    case True
    then show ?thesis using that by (cases "w = ?w") (simp_all add: tab)
  next
    case False
    then show ?thesis by (simp add: tab)
  qed
  have t': "table_wf c'"
    unfolding table_wf_def
  proof (intro allI impI)
    fix w n assume a: "btree_cache_table c' w = Some n"
    then have nb: "n \<noteq> b" using nob by auto
    then have "btree_cache_table c w = Some n" using a other by simp
    then show "n < heap_next c' \<and> PTR_HASH (key (nodes c' n)) = w"
      using t nb by (simp add: table_wf_def hp keyn)
  qed
  have h': "hash_inv c'"
    unfolding hash_inv_def mca_find_ex
  proof (intro allI impI)
    fix n assume "n < heap_next c'"
    then have n: "n < heap_next c" by (simp add: hp)
    show "(\<exists>w. btree_cache_table c' w = Some n) = (PTR_HASH (key (nodes c' n)) \<noteq> 0)"
    proof (cases "n = b")
      case True
      then show ?thesis using nob keyb by simp
    next
      case False
      then show ?thesis using h n other[OF False]
        by (simp add: hash_inv_def mca_find_ex keyn)
    qed
  qed
  have k': "keys_wf c'"
    unfolding keys_wf_def
  proof (intro allI impI)
    fix n assume "n < heap_next c'" and nz: "PTR_HASH (key (nodes c' n)) \<noteq> 0"
    then have "n \<noteq> b" using keyb by auto
    then show "extent_is_data (key (nodes c' n))"
      using k nz \<open>n < heap_next c'\<close> by (simp add: keys_wf_def hp keyn)
  qed
  have l': "lists_wf c'" using l by (simp add: lists_wf_def ls hp)
  have "\<forall>k. mca_find c' k \<noteq> Some b" using nob by (simp add: mca_find_def)
  then show ?thesis using h' t' k' l' keyb hp ls by (simp add: mca_inv_def)
qed


lemma mca_inv_reap: "mca_inv c \<Longrightarrow> mca_inv (snd (mca_reap_notrace c b fl))"
  by (rule mca_inv_frame[where c = c]) (auto dest: mca_inv_lists)

lemma mca_inv_unlock: "mca_inv c \<Longrightarrow> mca_inv (unlock_write_intent b c)"
  by (rule mca_inv_frame[where c = c]) (auto dest: mca_inv_lists)

lemma mca_inv_lock_upd: "mca_inv c \<Longrightarrow> mca_inv (lock_upd b g c)"
  by (rule mca_inv_frame[where c = c]) (auto dest: mca_inv_lists)

lemma mca_inv_clear: "mca_inv c \<Longrightarrow> mca_inv (clear_btree_node_accessed b c)"
  by (rule mca_inv_frame[where c = c]) (auto dest: mca_inv_lists)

lemma mca_inv_data_free: "mca_inv c \<Longrightarrow> b < heap_next c \<Longrightarrow> mca_inv (mca_data_free c b)"
  by (rule mca_inv_frame[where c = c]) (auto dest: mca_inv_lists)

lemma mca_inv_data_alloc:
  "mca_inv c \<Longrightarrow> b < heap_next c \<Longrightarrow> mca_inv (mca_data_alloc env c b)"
  by (rule mca_inv_frame[where c = c]) (auto dest: mca_inv_lists)

lemma mca_inv_cache_list:
  "mca_inv c \<Longrightarrow> set xs \<subseteq> {..<heap_next c} \<Longrightarrow> mca_inv (c\<lparr>btree_cache := xs\<rparr>)"
proof (rule mca_inv_frame[where c = c])
  assume inv: "mca_inv c" and xs: "set xs \<subseteq> {..<heap_next c}"
  show "mca_inv c" by (rule inv)
  show "same_keys c (c\<lparr>btree_cache := xs\<rparr>)" by simp
  have "lists_set c \<subseteq> {..<heap_next c}" using inv by (rule mca_inv_lists)
  then show "lists_set (c\<lparr>btree_cache := xs\<rparr>) \<subseteq> {..<heap_next c}"
    using xs by (auto simp: lists_set_def)
qed

lemma mca_inv_list_del: "mca_inv c \<Longrightarrow> mca_inv (list_del b c)"
  by (rule mca_inv_frame[where c = c]) (auto dest: mca_inv_lists simp: lists_set_list_del)

lemma mca_inv_alloc_out: "mca_inv c \<Longrightarrow> mca_inv (mca_alloc_out b c)"
  by (rule mca_inv_frame[where c = c]) (auto dest: mca_inv_lists)

lemma scan_freeable_inv:
  "mca_inv c \<Longrightarrow> set bs \<subseteq> {..<heap_next c} \<Longrightarrow>
     mca_inv (fst (scan_freeable nr bs c i freed touched))
     \<and> heap_next (fst (scan_freeable nr bs c i freed touched)) = heap_next c"
proof (induction nr bs c i freed touched rule: scan_freeable.induct)
  case (1 nr c i freed touched)
  then show ?case by simp
next
  case (2 nr b bs c i freed touched)
  have b: "b < heap_next c" and bs: "set bs \<subseteq> {..<heap_next c}" using "2.prems"(2) by auto
  show ?case
  proof (cases "nr \<le> freed")
    case True
    then show ?thesis using "2.prems" by simp
  next
    case False
    show ?thesis
    proof (cases "3 < i + 1 \<and> fst (mca_reap_notrace c b False)")
      case True
      let ?c1 = "unlock_write_intent b (mca_data_free (snd (mca_reap_notrace c b False)) b)"
      have i1: "mca_inv ?c1"
        using "2.prems"(1) b by (intro mca_inv_unlock mca_inv_data_free mca_inv_reap) simp_all
      have h1: "heap_next ?c1 = heap_next c" by simp
      show ?thesis
        using "2.IH"(1)[OF False True i1] bs h1 False True by simp
    next
      case F2: False
      let ?c1 = "if 3 < i + 1 then snd (mca_reap_notrace c b False) else c"
      have i1: "mca_inv ?c1" using "2.prems"(1) by (simp add: mca_inv_reap)
      have h1: "heap_next ?c1 = heap_next c" by simp
      have "scan_freeable nr (b # bs) c i freed touched
          = scan_freeable nr bs ?c1 (i + 1) freed (touched + 1)"
        using False F2 by (simp del: de_Morgan_conj)
      then show ?thesis
        using "2.IH"(2)[OF False F2 i1] bs h1 by simp
    qed
  qed
qed

lemma lru_inv_ok_heap: "heap_next c1 = heap_next c \<Longrightarrow> lru_inv_ok c1 r \<Longrightarrow> lru_inv_ok c r"
  by (auto simp: lru_inv_ok_def split: sum.splits)

lemma set_save_position: "set (save_position pre b ts) = insert b (set pre \<union> set ts)"
  by (auto simp: save_position_def)

lemma scan_lru_inv:
  "mca_inv c \<Longrightarrow> set pre \<union> set rest \<subseteq> {..<heap_next c} \<Longrightarrow>
     lru_inv_ok c (scan_lru sc nr pre rest c freed touched)"
proof (induction sc nr pre rest c freed touched rule: scan_lru.induct)
  case (1 sc nr pre c freed touched)
  then show ?case by (simp add: lru_inv_ok_def)
next
  case (2 sc nr pre b ts c freed touched)
  have b: "b < heap_next c" and sub: "set pre \<union> set ts \<subseteq> {..<heap_next c}"
    using "2.prems"(2) by auto
  have sp: "set (save_position pre b ts) \<subseteq> {..<heap_next c}"
    using b sub by (auto simp: set_save_position)
  show ?case
  proof (cases "nr \<le> freed")
    case True
    then show ?thesis using "2.prems"(1) sp by (simp add: lru_inv_ok_def mca_inv_cache_list)
  next
    case False
    show ?thesis
    proof (cases "\<not> node_accessed (flags (nodes c b)) \<and> fst (mca_reap c b False)")
      case True
      let ?c0 = "(snd (mca_reap c b False))\<lparr>btree_cache := save_position pre b ts\<rparr>"
      let ?cf = "mca_data_free ?c0 b"
      have i0: "mca_inv ?c0"
        using "2.prems"(1) sp by (intro mca_inv_cache_list) (simp_all add: mca_reap_def mca_inv_reap)
      have icf: "mca_inv ?cf" using i0 b by (intro mca_inv_data_free) (simp_all add: mca_reap_def)
      have hcf: "heap_next ?cf = heap_next c" by (simp add: mca_reap_def)
      show ?thesis
      proof (cases "mca_hash_remove ?cf b")
        case (Inl f)
        then show ?thesis using False True by (simp add: lru_inv_ok_def)
      next
        case (Inr c2)
        have i2: "mca_inv (unlock_write_intent b c2)" and h2: "heap_next (unlock_write_intent b c2) = heap_next c"
          using mca_hash_remove_inv[OF icf Inr] hcf by (simp_all add: mca_inv_unlock)
        have stop: "lru_inv_ok c (Inr (unlock_write_intent b c2, freed + 1, touched + 1))"
          using i2 h2 by (simp add: lru_inv_ok_def)
        show ?thesis
        proof (cases "nr \<le> freed + 1")
          case T3: True
          then show ?thesis using False True Inr stop by simp
        next
          case F3: False
          show ?thesis
          proof (cases "gfp_io sc \<or> mutex_trylock sc (unat (freed + 1))")
            case T4: True
            have "set [] \<union> set (removeAll b (save_position pre b ts))
                \<subseteq> {..<heap_next (unlock_write_intent b c2)}"
              using sp h2 by auto
            then have "lru_inv_ok (unlock_write_intent b c2)
                (scan_lru sc nr [] (removeAll b (save_position pre b ts))
                   (unlock_write_intent b c2) (freed + 1) (touched + 1))"
              using "2.IH"(1)[OF False True Inr F3 T4 i2] by simp
            then have "lru_inv_ok c
                (scan_lru sc nr [] (removeAll b (save_position pre b ts))
                   (unlock_write_intent b c2) (freed + 1) (touched + 1))"
              by (rule lru_inv_ok_heap[OF h2])
            then show ?thesis using False True Inr F3 T4 by simp
          next
            case F4: False
            then show ?thesis using False True Inr F3 stop by simp
          qed
        qed
      qed
    next
      case F2: False
      let ?c1 = "clear_btree_node_accessed b
             (if node_accessed (flags (nodes c b)) then c else snd (mca_reap c b False))"
      have i1: "mca_inv ?c1"
        using "2.prems"(1) by (auto intro!: mca_inv_clear mca_inv_reap simp: mca_reap_def)
      have h1: "heap_next ?c1 = heap_next c"
        by (simp add: clear_btree_node_accessed_def mca_reap_def)
      have "set (pre @ [b]) \<union> set ts \<subseteq> {..<heap_next ?c1}"
        using b sub h1 by auto
      then have "lru_inv_ok ?c1 (scan_lru sc nr (pre @ [b]) ts ?c1 freed (touched + 1))"
        using "2.IH"(2)[OF False F2 i1] by simp
      then have "lru_inv_ok c (scan_lru sc nr (pre @ [b]) ts ?c1 freed (touched + 1))"
        by (rule lru_inv_ok_heap[OF h1])
      moreover have "scan_lru sc nr pre (b # ts) c freed touched
          = scan_lru sc nr (pre @ [b]) ts ?c1 freed (touched + 1)"
        using False F2 by (simp del: de_Morgan_conj)
      ultimately show ?thesis by simp
    qed
  qed
qed

lemma bch_mca_scan_inv:
  assumes inv: "mca_inv c"
  shows "case bch_mca_scan c sc of Inl _ \<Rightarrow> True | Inr out \<Rightarrow> mca_inv (scan_cs out)"
proof (cases "btree_shrinker_disabled c \<or> btree_cache_alloc_lock c \<noteq> None
                  \<or> (\<not> gfp_io sc \<and> \<not> mutex_trylock sc 0)")
  case True
  then show ?thesis using inv by (auto simp: bch_mca_scan_def)
next
  case False
  define nr where "nr = min (nr_to_scan sc div btree_pages c) (scast (mca_can_free c) :: u64)"
  obtain c1 f1 t1 where s1: "scan_freeable nr (btree_cache_freeable c) c 0 0 0 = (c1, f1, t1)"
    by (cases "scan_freeable nr (btree_cache_freeable c) c 0 0 0") auto
  have "set (btree_cache_freeable c) \<subseteq> {..<heap_next c}"
    using mca_inv_lists[OF inv] by (auto simp: lists_set_def)
  from scan_freeable_inv[OF inv this, of nr 0 0 0]
  have i1: "mca_inv c1" and h1: "heap_next c1 = heap_next c" by (simp_all add: s1)
  have "set [] \<union> set (btree_cache c1) \<subseteq> {..<heap_next c1}"
    using mca_inv_lists[OF i1] by (auto simp: lists_set_def)
  from scan_lru_inv[OF i1 this, of sc nr f1 t1]
  have l: "lru_inv_ok c1 (scan_lru sc nr [] (btree_cache c1) c1 f1 t1)" .
  show ?thesis
  proof (cases "scan_lru sc nr [] (btree_cache c1) c1 f1 t1")
    case (Inl f)
    then show ?thesis using False s1 by (auto simp: bch_mca_scan_def Let_def nr_def)
  next
    case (Inr r)
    obtain c2 f2 t2 where r: "r = (c2, f2, t2)" by (cases r) auto
    have "mca_inv c2" using l Inr r by (simp add: lru_inv_ok_def)
    then show ?thesis using False s1 Inr r by (auto simp: bch_mca_scan_def Let_def nr_def)
  qed
qed

lemma reap_first_props:
  "same_keys c (snd (reap_first c bs fl)) \<and> lists_set (snd (reap_first c bs fl)) = lists_set c
   \<and> (\<forall>b. fst (reap_first c bs fl) = Some b \<longrightarrow> b \<in> set bs)"
proof (induction c bs fl rule: reap_first.induct)
  case (1 c flush)
  then show ?case by simp
next
  case (2 c b bs flush)
  show ?case
  proof (cases "fst (mca_reap_notrace c b flush)")
    case True
    then show ?thesis by simp
  next
    case False
    have k: "same_keys c (snd (mca_reap_notrace c b flush))" by simp
    have ih: "same_keys (snd (mca_reap_notrace c b flush))
                (snd (reap_first (snd (mca_reap_notrace c b flush)) bs flush))"
      "lists_set (snd (reap_first (snd (mca_reap_notrace c b flush)) bs flush)) = lists_set c"
      "\<forall>x. fst (reap_first (snd (mca_reap_notrace c b flush)) bs flush) = Some x \<longrightarrow> x \<in> set bs"
      using "2.IH"[OF False] by simp_all
    have "same_keys c (snd (reap_first (snd (mca_reap_notrace c b flush)) bs flush))"
      using k ih(1) by (rule same_keys_trans)
    then show ?thesis using ih(2,3) False by simp
  qed
qed

lemma reap_first_inv:
  assumes inv: "mca_inv c"
  shows "mca_inv (snd (reap_first c bs fl))"
proof (rule mca_inv_frame[OF inv])
  show "same_keys c (snd (reap_first c bs fl))"
    using reap_first_props[of c bs fl] by (rule conjunct1)
  have "lists_set (snd (reap_first c bs fl)) = lists_set c"
    using reap_first_props[of c bs fl] by simp
  then show "lists_set (snd (reap_first c bs fl)) \<subseteq> {..<heap_next c}"
    using mca_inv_lists[OF inv] by simp
qed

lemma reap_first_heap: "heap_next (snd (reap_first c bs fl)) = heap_next c"
  using reap_first_props[of c bs fl] by (simp add: same_keys_def)

lemma reap_first_mem: "reap_first c bs fl = (Some b, c') \<Longrightarrow> b \<in> set bs"
  using reap_first_props[of c bs fl] by simp

lemma mca_alloc_out_unlock_post:
  assumes inv: "mca_inv c" and b: "b < heap_next c"
  shows "alloc_post (mca_alloc_out_unlock b c)"
proof (cases "mca_alloc_out_unlock b c")
  case (Inl f)
  then show ?thesis by (simp add: alloc_post_def)
next
  case (Inr r)
  then have nobug: "\<not> (extent_is_data (key (nodes c b)) \<and> PTR_HASH (key (nodes c b)) \<noteq> 0)"
    and r: "r = (Some b, mca_alloc_out b (list_del b c))"
    by (auto simp: mca_alloc_out_unlock_def Let_def split: if_splits)
  have "keys_wf c" using inv by (simp add: mca_inv_def)
  then have z: "PTR_HASH (key (nodes c b)) = 0"
    using nobug b unfolding keys_wf_def by blast
  have i: "mca_inv (mca_alloc_out b (list_del b c))"
    using inv by (intro mca_inv_alloc_out mca_inv_list_del)
  have k: "key (nodes (mca_alloc_out b (list_del b c)) b) = key (nodes c b)"
    by (simp add: mca_alloc_out_def list_del_def)
  have h: "heap_next (mca_alloc_out b (list_del b c)) = heap_next c"
    by (simp add: mca_alloc_out_def list_del_def)
  show ?thesis using Inr r i z b by (simp add: alloc_post_def k h)
qed

lemma reap_first_cases:
  assumes "reap_first c bs fl = (r, c1)"
  shows "lists_set c1 = lists_set c \<and> heap_next c1 = heap_next c
         \<and> (mca_inv c \<longrightarrow> mca_inv c1) \<and> (\<forall>b. r = Some b \<longrightarrow> b \<in> set bs)"
  using reap_first_props[of c bs fl] reap_first_inv[of c bs fl] reap_first_heap[of c bs fl] assms
  by simp

lemma mca_cannibalize_props:
  assumes inv: "mca_inv c" and r: "mca_cannibalize c = Inr (b, c')"
  shows "mca_inv c' \<and> b < heap_next c' \<and> heap_next c' = heap_next c"
proof -
  obtain o1 c1 where r1: "reap_first c (rev (btree_cache c)) False = (o1, c1)"
    by (cases "reap_first c (rev (btree_cache c)) False") auto
  from reap_first_cases[OF r1] inv
  have l1: "lists_set c1 = lists_set c" and h1: "heap_next c1 = heap_next c"
    and i1: "mca_inv c1" and m1: "\<forall>x. o1 = Some x \<longrightarrow> x \<in> set (rev (btree_cache c))"
    by simp_all
  have inl: "x \<in> lists_set c \<Longrightarrow> x < heap_next c" for x
    using mca_inv_lists[OF inv] by auto
  show ?thesis
  proof (cases o1)
    case (Some x)
    then have "b = x" "c' = c1" using r r1 by (simp_all add: mca_cannibalize_def)
    moreover have "x \<in> lists_set c" using m1 Some by (simp add: lists_set_def)
    ultimately show ?thesis using i1 h1 inl by simp
  next
    case None
    obtain o2 c2 where r2: "reap_first c1 (rev (btree_cache c1)) True = (o2, c2)"
      by (cases "reap_first c1 (rev (btree_cache c1)) True") auto
    from reap_first_cases[OF r2] i1
    have h2: "heap_next c2 = heap_next c1" and i2: "mca_inv c2"
      and m2: "\<forall>x. o2 = Some x \<longrightarrow> x \<in> set (rev (btree_cache c1))"
      by simp_all
    show ?thesis
    proof (cases o2)
      case N2: None
      then have "mca_cannibalize c = Inl SPIN"
        using r1 r2 None by (simp add: mca_cannibalize_def)
      with r show ?thesis by simp
    next
      case S2: (Some x)
      then have "mca_cannibalize c = Inr (x, c2)"
        using r1 r2 None by (simp add: mca_cannibalize_def)
      then have bx: "b = x" "c' = c2" using r by simp_all
      have "x \<in> lists_set c1" using m2 S2 by (simp add: lists_set_def)
      then have "x < heap_next c" using l1 inl by simp
      then show ?thesis using bx i2 h2 h1 by simp
    qed
  qed
qed

lemma mca_alloc_err_post:
  assumes inv: "mca_inv c"
  shows "alloc_post (mca_alloc_err current c)"
proof (cases "btree_cache_alloc_lock c = Some current")
  case False
  then show ?thesis using inv by (simp add: mca_alloc_err_def alloc_post_def)
next
  case True
  show ?thesis
  proof (cases "mca_cannibalize c")
    case (Inl f)
    then show ?thesis using True by (simp add: mca_alloc_err_def alloc_post_def)
  next
    case (Inr r)
    obtain b c1 where r: "r = (b, c1)" by (cases r) auto
    have p: "mca_inv c1" "b < heap_next c1"
      using mca_cannibalize_props[OF inv] Inr r by simp_all
    have i2: "mca_inv (list_del b c1)" using p(1) by (rule mca_inv_list_del)
    show ?thesis
    proof (cases "mca_hash_remove (list_del b c1) b")
      case (Inl f)
      then show ?thesis using True Inr r by (simp add: mca_alloc_err_def alloc_post_def)
    next
      case R: (Inr c2)
      have q: "mca_inv c2" "PTR_HASH (key (nodes c2 b)) = 0" "heap_next c2 = heap_next (list_del b c1)"
        using mca_hash_remove_inv[OF i2 R] by simp_all
      have h: "heap_next (list_del b c1) = heap_next c1" by (simp add: list_del_def)
      have "mca_inv (mca_alloc_out b c2)" using q(1) by (rule mca_inv_alloc_out)
      moreover have "key (nodes (mca_alloc_out b c2) b) = key (nodes c2 b)"
        "heap_next (mca_alloc_out b c2) = heap_next c2"
        by (simp_all add: mca_alloc_out_def)
      ultimately show ?thesis using True Inr r R q p h
        by (simp add: mca_alloc_err_def alloc_post_def)
    qed
  qed
qed

lemma not_hashed:
  assumes inv: "mca_inv c" and b: "b < heap_next c" and z: "PTR_HASH (key (nodes c b)) = 0"
  shows "btree_cache_table c w \<noteq> Some b"
proof
  assume "btree_cache_table c w = Some b"
  then have "\<exists>w. btree_cache_table c w = Some b" ..
  moreover have "hash_inv c" using inv by (simp add: mca_inv_def)
  ultimately have "PTR_HASH (key (nodes c b)) \<noteq> 0"
    using b unfolding hash_inv_def mca_find_ex by blast
  with z show False by simp
qed

lemma fresh_node_inv:
  assumes inv: "mca_inv c"
  shows "mca_inv (c\<lparr>nodes := (nodes c)(heap_next c := zeroed_btree), heap_next := Suc (heap_next c)\<rparr>)"
    (is "mca_inv ?c1")
proof -
  let ?b = "heap_next c"
  from inv have h: "hash_inv c" and t: "table_wf c" and k: "keys_wf c" and l: "lists_wf c"
    by (simp_all add: mca_inv_def)
  have lt: "btree_cache_table c w = Some n \<Longrightarrow> n < ?b \<and> PTR_HASH (key (nodes c n)) = w" for w n
    using t unfolding table_wf_def by blast
  have z: "PTR_HASH (key zeroed_btree) = 0" by (simp add: zeroed_btree_def PTR_HASH_def)
  have nob: "btree_cache_table c w \<noteq> Some ?b" for w using lt[of w ?b] by auto
  have h1: "hash_inv ?c1"
    unfolding hash_inv_def mca_find_ex
  proof (intro allI impI)
    fix n assume "n < heap_next ?c1"
    then have n: "n < ?b \<or> n = ?b" by auto
    show "(\<exists>w. btree_cache_table ?c1 w = Some n) = (PTR_HASH (key (nodes ?c1 n)) \<noteq> 0)"
    proof (cases "n = ?b")
      case True
      then show ?thesis using nob z by simp
    next
      case False
      then have "n < ?b" using n by simp
      then show ?thesis using h False by (simp add: hash_inv_def mca_find_ex)
    qed
  qed
  have t1: "table_wf ?c1"
    unfolding table_wf_def
  proof (intro allI impI)
    fix w n assume "btree_cache_table ?c1 w = Some n"
    then have a: "btree_cache_table c w = Some n" by simp
    then have "n < ?b" "PTR_HASH (key (nodes c n)) = w" using lt by simp_all
    then show "n < heap_next ?c1 \<and> PTR_HASH (key (nodes ?c1 n)) = w" by simp
  qed
  have k1: "keys_wf ?c1"
    unfolding keys_wf_def
  proof (intro allI impI)
    fix n assume a: "n < heap_next ?c1" and nz: "PTR_HASH (key (nodes ?c1 n)) \<noteq> 0"
    then have "n \<noteq> ?b" using z by auto
    then have "n < ?b" using a by simp
    then show "extent_is_data (key (nodes ?c1 n))"
      using k nz \<open>n \<noteq> ?b\<close> by (simp add: keys_wf_def)
  qed
  have l1: "lists_wf ?c1" using l by (auto simp: lists_wf_def lists_set_def less_Suc_eq)
  show ?thesis using h1 t1 k1 l1 by (simp add: mca_inv_def)
qed

lemma mca_bucket_alloc_post:
  assumes inv: "mca_inv c" and r: "mca_bucket_alloc env c = (ob, c')"
  shows "mca_inv c' \<and> (\<forall>b. ob = Some b \<longrightarrow> b < heap_next c' \<and> PTR_HASH (key (nodes c' b)) = 0)"
proof (cases "kzalloc_ok env")
  case False
  then show ?thesis using inv r by (simp add: mca_bucket_alloc_def)
next
  case True
  let ?b = "heap_next c"
  let ?c1 = "c\<lparr>nodes := (nodes c)(?b := zeroed_btree), heap_next := Suc ?b\<rparr>"
  have c': "c' = mca_data_alloc env ?c1 ?b"
    and ob: "ob = Some b \<Longrightarrow> b = ?b" for b
    using r True by (auto simp: mca_bucket_alloc_def Let_def split: if_splits)
  have i1: "mca_inv ?c1" using inv by (rule fresh_node_inv)
  have "mca_inv c'" unfolding c' using i1 by (rule mca_inv_data_alloc) simp
  moreover have "PTR_HASH (key (nodes c' ?b)) = 0"
    by (simp add: c' zeroed_btree_def PTR_HASH_def)
  moreover have "?b < heap_next c'" by (simp add: c')
  ultimately show ?thesis using ob by auto
qed

lemma mca_alloc_post:
  assumes inv: "mca_inv c"
  shows "alloc_post (mca_alloc current env c)"
proof -
  have inl: "mca_inv d \<Longrightarrow> x \<in> lists_set d \<Longrightarrow> x < heap_next d" for d x
    using mca_inv_lists by auto
  obtain o1 c1 where r1: "reap_first c (btree_cache_freeable c) False = (o1, c1)"
    by (cases "reap_first c (btree_cache_freeable c) False") auto
  from reap_first_cases[OF r1] inv
  have h1: "heap_next c1 = heap_next c" and i1: "mca_inv c1"
    and m1: "\<forall>x. o1 = Some x \<longrightarrow> x \<in> set (btree_cache_freeable c)" by simp_all
  show ?thesis
  proof (cases o1)
    case (Some b)
    then have "b \<in> lists_set c" using m1 by (simp add: lists_set_def)
    then have "b < heap_next c1" using inl[OF inv] h1 by simp
    then have "alloc_post (mca_alloc_out_unlock b c1)" using i1 by (intro mca_alloc_out_unlock_post)
    then show ?thesis using r1 Some by (simp add: mca_alloc_def)
  next
    case None
    obtain o2 c2 where r2: "reap_first c1 (btree_cache_freed c1) False = (o2, c2)"
      by (cases "reap_first c1 (btree_cache_freed c1) False") auto
    from reap_first_cases[OF r2] i1
    have h2: "heap_next c2 = heap_next c1" and i2: "mca_inv c2"
      and m2: "\<forall>x. o2 = Some x \<longrightarrow> x \<in> set (btree_cache_freed c1)" by simp_all
    show ?thesis
    proof (cases o2)
      case S2: (Some b)
      then have "b \<in> lists_set c1" using m2 by (simp add: lists_set_def)
      then have b: "b < heap_next c2" using inl[OF i1] h2 by simp
      let ?c3 = "mca_data_alloc env c2 b"
      have i3: "mca_inv ?c3" using i2 b by (rule mca_inv_data_alloc)
      have b3: "b < heap_next ?c3" using b by simp
      have "alloc_post (if has_data (nodes ?c3 b) then mca_alloc_out_unlock b ?c3
                        else mca_alloc_err current (unlock_write_intent b ?c3))"
        using mca_alloc_out_unlock_post[OF i3 b3] mca_alloc_err_post[OF mca_inv_unlock[OF i3]]
        by simp
      then show ?thesis using r1 None r2 S2 by (simp add: mca_alloc_def Let_def)
    next
      case N2: None
      obtain o3 c3 where r3: "mca_bucket_alloc env c2 = (o3, c3)"
        by (cases "mca_bucket_alloc env c2") auto
      from mca_bucket_alloc_post[OF i2 r3]
      have i3: "mca_inv c3" and p3: "\<forall>b. o3 = Some b \<longrightarrow> b < heap_next c3 \<and> PTR_HASH (key (nodes c3 b)) = 0"
        by simp_all
      show ?thesis
      proof (cases o3)
        case N3: None
        then show ?thesis using r1 None r2 N2 r3 mca_alloc_err_post[OF i3]
          by (simp add: mca_alloc_def)
      next
        case S3: (Some b)
        have b: "b < heap_next c3" using p3 S3 by simp
        have "alloc_post (mca_alloc_out_unlock b (lock_upd b g c3))" for g
          by (rule mca_alloc_out_unlock_post) (simp_all add: mca_inv_lock_upd i3 b)
        then show ?thesis using r1 None r2 N2 r3 S3
          by (simp add: mca_alloc_def alloc_post_def split: option.splits)
      qed
    qed
  qed
qed

lemma drop_parent_same [simp]:
  "same_keys c (fst (drop_parent_read_lock c iter l))"
  "lists_set (fst (drop_parent_read_lock c iter l)) = lists_set c"
  by (simp_all add: drop_parent_read_lock_def btree_node_unlock_def iter_lock_upd_def
      split: option.splits)

lemma node_read_same [simp]:
  "same_keys c (bch_btree_node_read env c b)"
  "lists_set (bch_btree_node_read env c b) = lists_set c"
  by (simp_all add: bch_btree_node_read_def same_keys_def)

lemma same_keys_table: "same_keys c c' \<Longrightarrow> btree_cache_table c' = btree_cache_table c"
  by (simp add: same_keys_def)

lemma lost_race_inv:
  assumes i1: "mca_inv c1" and b: "b < heap_next c1" and z: "PTR_HASH (key (nodes c1 b)) = 0"
    and tab: "btree_cache_table c6 = btree_cache_table c1"
    and hp: "heap_next c6 = heap_next c1"
    and others: "\<And>n. n \<noteq> b \<Longrightarrow> key (nodes c6 n) = key (nodes c1 n)"
    and zb: "PTR_HASH (key (nodes c6 b)) = 0"
    and ls: "lists_set c6 \<subseteq> insert b (lists_set c1)"
  shows "mca_inv c6 \<and> (\<forall>k'. mca_find c6 k' \<noteq> Some b)"
proof -
  from i1 have h: "hash_inv c1" and t: "table_wf c1" and k: "keys_wf c1"
    by (simp_all add: mca_inv_def)
  have ph: "PTR_HASH (key (nodes c6 n)) = PTR_HASH (key (nodes c1 n))" for n
    using z zb others[of n] by (cases "n = b") simp_all
  have "hash_inv c6" using h by (simp add: hash_inv_def mca_find_ex tab hp ph)
  moreover have "table_wf c6" using t by (simp add: table_wf_def tab hp ph)
  moreover have "keys_wf c6"
    unfolding keys_wf_def
  proof (intro allI impI)
    fix n assume n: "n < heap_next c6" and nz: "PTR_HASH (key (nodes c6 n)) \<noteq> 0"
    then have "n \<noteq> b" using zb by auto
    then show "extent_is_data (key (nodes c6 n))"
      using k n nz by (simp add: keys_wf_def hp others)
  qed
  moreover have "lists_wf c6"
    using ls b mca_inv_lists[OF i1] by (auto simp: lists_wf_def hp)
  moreover have "mca_find c6 k' \<noteq> Some b" for k'
    using not_hashed[OF i1 b z] by (simp add: mca_find_def tab)
  ultimately show ?thesis by (simp add: mca_inv_def)
qed

lemma insert_inv:
  assumes i1: "mca_inv c1" and b: "b < heap_next c1" and z: "PTR_HASH (key (nodes c1 b)) = 0"
    and wz: "w \<noteq> 0" and free: "btree_cache_table c1 w = None"
    and tab: "btree_cache_table c' = (btree_cache_table c1)(w \<mapsto> b)"
    and hp: "heap_next c' = heap_next c1"
    and others: "\<And>n. n \<noteq> b \<Longrightarrow> key (nodes c' n) = key (nodes c1 n)"
    and keyb: "PTR_HASH (key (nodes c' b)) = w"
    and isd: "extent_is_data (key (nodes c' b))"
    and ls: "lists_set c' \<subseteq> insert b (lists_set c1)"
  shows "mca_inv c'"
proof -
  from i1 have h: "hash_inv c1" and t: "table_wf c1" and k: "keys_wf c1"
    by (simp_all add: mca_inv_def)
  have filed: "btree_cache_table c1 v = Some n \<Longrightarrow> n < heap_next c1 \<and> PTR_HASH (key (nodes c1 n)) = v"
    for v n using t unfolding table_wf_def by blast
  have nob: "btree_cache_table c1 v \<noteq> Some b" for v by (rule not_hashed[OF i1 b z])
  have other: "(\<exists>v. btree_cache_table c' v = Some n) \<longleftrightarrow> (\<exists>v. btree_cache_table c1 v = Some n)"
    if nb: "n \<noteq> b" for n
  proof
    assume "\<exists>v. btree_cache_table c' v = Some n"
    then obtain v where v: "btree_cache_table c' v = Some n" ..
    then have "v \<noteq> w" using nb by (auto simp: tab)
    then have "btree_cache_table c1 v = Some n" using v by (simp add: tab)
    then show "\<exists>v. btree_cache_table c1 v = Some n" ..
  next
    assume "\<exists>v. btree_cache_table c1 v = Some n"
    then obtain v where v: "btree_cache_table c1 v = Some n" ..
    then have "v \<noteq> w" using free by auto
    then have "btree_cache_table c' v = Some n" using v by (simp add: tab)
    then show "\<exists>v. btree_cache_table c' v = Some n" ..
  qed
  have h': "hash_inv c'"
    unfolding hash_inv_def mca_find_ex
  proof (intro allI impI)
    fix n assume n: "n < heap_next c'"
    show "(\<exists>v. btree_cache_table c' v = Some n) = (PTR_HASH (key (nodes c' n)) \<noteq> 0)"
    proof (cases "n = b")
      case True
      have "btree_cache_table c' w = Some b" by (simp add: tab)
      then have "\<exists>v. btree_cache_table c' v = Some b" ..
      then show ?thesis using True keyb wz by simp
    next
      case False
      then show ?thesis using h n other[OF False]
        by (simp add: hash_inv_def mca_find_ex hp others)
    qed
  qed
  have t': "table_wf c'"
    unfolding table_wf_def
  proof (intro allI impI)
    fix v n assume a: "btree_cache_table c' v = Some n"
    show "n < heap_next c' \<and> PTR_HASH (key (nodes c' n)) = v"
    proof (cases "v = w")
      case True
      then have "n = b" using a by (simp add: tab)
      then show ?thesis using True b keyb by (simp add: hp)
    next
      case False
      then have c1: "btree_cache_table c1 v = Some n" using a by (simp add: tab)
      then have "n \<noteq> b" using nob by auto
      then show ?thesis using filed[OF c1] by (simp add: hp others)
    qed
  qed
  have k': "keys_wf c'"
    unfolding keys_wf_def
  proof (intro allI impI)
    fix n assume n: "n < heap_next c'" and nz: "PTR_HASH (key (nodes c' n)) \<noteq> 0"
    show "extent_is_data (key (nodes c' n))"
    proof (cases "n = b")
      case True
      then show ?thesis using isd by simp
    next
      case False
      then show ?thesis using k n nz by (simp add: keys_wf_def hp others)
    qed
  qed
  have l': "lists_wf c'"
    using ls b mca_inv_lists[OF i1] by (auto simp: lists_wf_def hp)
  show ?thesis using h' t' k' l' by (simp add: mca_inv_def)
qed

lemma mca_inv_same_keys:
  assumes i: "mca_inv c" and sk: "same_keys c c'" and ls: "lists_set c' = lists_set c"
  shows "mca_inv c'"
proof (rule mca_inv_frame[OF i sk])
  show "lists_set c' \<subseteq> {..<heap_next c}"
    using mca_inv_lists[OF i] by (auto simp: ls)
qed

lemma fill_tail_same:
  fixes c4 :: cache_set and b :: nat and env :: get_env and iter :: btree_iter and l :: nat
  defines "c6 \<equiv> lock_upd b six_unlock_write
             (bch_btree_node_read env (fst (drop_parent_read_lock c4 iter l)) b)"
  shows "same_keys c4 (if t = SIX_LOCK_read then lock_upd b six_lock_downgrade c6 else c6)"
    and "lists_set (if t = SIX_LOCK_read then lock_upd b six_lock_downgrade c6 else c6)
           = lists_set c4"
proof -
  have s5: "same_keys c4 (fst (drop_parent_read_lock c4 iter l))"
    by (rule drop_parent_same(1))
  have s6: "same_keys (fst (drop_parent_read_lock c4 iter l)) c6"
    unfolding c6_def by (rule same_keys_trans[OF node_read_same(1) same_keys_lock_upd])
  have s46: "same_keys c4 c6" using s5 s6 by (rule same_keys_trans)
  have s47: "same_keys c4 (lock_upd b six_lock_downgrade c6)"
    using s46 same_keys_lock_upd by (rule same_keys_trans)
  show "same_keys c4 (if t = SIX_LOCK_read then lock_upd b six_lock_downgrade c6 else c6)"
    using s46 s47 by (cases "t = SIX_LOCK_read") simp_all
  have l6: "lists_set c6 = lists_set c4" unfolding c6_def by simp
  show "lists_set (if t = SIX_LOCK_read then lock_upd b six_lock_downgrade c6 else c6)
           = lists_set c4"
    using l6 by (cases "t = SIX_LOCK_read") simp_all
qed

lemma bch_btree_node_fill_post:
  assumes inv: "mca_inv c" and kz: "PTR_HASH k \<noteq> 0" and kd: "extent_is_data k"
  shows "fill_post k (bch_btree_node_fill current env c iter k lvl t)"
proof (cases "mca_alloc current (alloc env) c")
  case (Inl f)
  then show ?thesis by (simp add: bch_btree_node_fill_def fill_post_def)
next
  case (Inr r)
  obtain ob c1 where r: "r = (ob, c1)" by (cases r) auto
  have post: "alloc_post (Inr (ob, c1))"
    using mca_alloc_post[OF inv, of current "alloc env"] Inr r by simp
  show ?thesis
  proof (cases ob)
    case None
    then show ?thesis using Inr r post
      by (simp add: bch_btree_node_fill_def fill_post_def alloc_post_def)
  next
    case (Some b)
    then have i1: "mca_inv c1" and b: "b < heap_next c1" and z: "PTR_HASH (key (nodes c1 b)) = 0"
      using post by (simp_all add: alloc_post_def)
    let ?c2 = "node_upd b (\<lambda>n. n\<lparr>key := k\<rparr>) c1"
    let ?c3 = "node_upd b (\<lambda>n. n\<lparr>level := ucast lvl, btree_id := iter_btree_id iter\<rparr>) ?c2"
    have k3: "PTR_HASH (key (nodes ?c3 b)) = PTR_HASH k" by simp
    show ?thesis
    proof (cases "rht_fail env \<or> btree_cache_table c1 (PTR_HASH k) \<noteq> None")
      case True
      let ?c4 = "node_upd b (\<lambda>n. n\<lparr>key := (key n)\<lparr>v_data0 := 0\<rparr>\<rparr>) ?c3"
      let ?c6 = "unlock_write_intent b (?c4\<lparr>btree_cache_freeable := b # btree_cache_freeable ?c4\<rparr>)"
      have ins: "mca_hash_insert (rht_fail env) ?c2 b (ucast lvl) (iter_btree_id iter) = (False, ?c3)"
        using True by (auto simp: mca_hash_insert_def Let_def)
      have res: "bch_btree_node_fill current env c iter k lvl t = Inr (Fill_raced b, ?c6, iter)"
        using Inr r Some ins by (simp add: bch_btree_node_fill_def Let_def)
      have "mca_inv ?c6 \<and> (\<forall>k'. mca_find ?c6 k' \<noteq> Some b)"
      proof (rule lost_race_inv[OF i1 b z])
        show "btree_cache_table ?c6 = btree_cache_table c1"
          by (simp add: unlock_write_intent_def)
        show "heap_next ?c6 = heap_next c1"
          by (simp add: unlock_write_intent_def)
        show "key (nodes ?c6 n) = key (nodes c1 n)" if "n \<noteq> b" for n
          using that by (simp add: unlock_write_intent_def)
        show "PTR_HASH (key (nodes ?c6 b)) = 0"
          by (simp add: unlock_write_intent_def PTR_HASH_def)
        show "lists_set ?c6 \<subseteq> insert b (lists_set c1)"
          by (auto simp: lists_set_def)
      qed
      moreover have "PTR_HASH (key (nodes ?c6 b)) = 0"
        by (simp add: unlock_write_intent_def PTR_HASH_def)
      moreover have "b \<in> set (btree_cache_freeable ?c6)" by simp
      ultimately show ?thesis by (simp add: res fill_post_def)
    next
      case False
      let ?c3' = "?c3\<lparr>btree_cache_table := (btree_cache_table ?c3)(PTR_HASH k \<mapsto> b)\<rparr>"
      let ?c4 = "?c3'\<lparr>btree_cache := b # btree_cache ?c3'\<rparr>"
      have ins: "mca_hash_insert (rht_fail env) ?c2 b (ucast lvl) (iter_btree_id iter) = (True, ?c4)"
        using False by (auto simp: mca_hash_insert_def Let_def)
      from False have free: "btree_cache_table c1 (PTR_HASH k) = None" by simp
      have i4: "mca_inv ?c4"
      proof (rule insert_inv[OF i1 b z kz free])
        show "btree_cache_table ?c4 = (btree_cache_table c1)(PTR_HASH k \<mapsto> b)" by simp
        show "heap_next ?c4 = heap_next c1" by simp
        show "key (nodes ?c4 n) = key (nodes c1 n)" if "n \<noteq> b" for n
          using that by simp
        show "PTR_HASH (key (nodes ?c4 b)) = PTR_HASH k" by simp
        show "extent_is_data (key (nodes ?c4 b))" using kd by simp
        show "lists_set ?c4 \<subseteq> insert b (lists_set c1)"
          by (auto simp: lists_set_def)
      qed
      let ?c5 = "fst (drop_parent_read_lock ?c4 iter (unat lvl))"
      let ?i5 = "snd (drop_parent_read_lock ?c4 iter (unat lvl))"
      let ?c6 = "lock_upd b six_unlock_write (bch_btree_node_read env ?c5 b)"
      let ?c7 = "if t = SIX_LOCK_read then lock_upd b six_lock_downgrade ?c6 else ?c6"
      have res: "bch_btree_node_fill current env c iter k lvl t = Inr (Fill_node b, ?c7, ?i5)"
        using Inr r Some ins by (simp add: bch_btree_node_fill_def Let_def case_prod_beta)
      have sk: "same_keys ?c4 ?c7" by (rule fill_tail_same(1))
      have ls: "lists_set ?c7 = lists_set ?c4" by (rule fill_tail_same(2))
      have i7: "mca_inv ?c7" using i4 sk ls by (rule mca_inv_same_keys)
      have tb: "btree_cache_table ?c7 = btree_cache_table ?c4" using sk by (rule same_keys_table)
      have "mca_find ?c7 k = Some b" unfolding mca_find_def tb by simp
      then show ?thesis using i7 by (simp add: res fill_post_def)
    qed
  qed
qed

lemma iter_lock_upd_same [simp]:
  "same_keys c (iter_lock_upd iter l f c)"
  "lists_set (iter_lock_upd iter l f c) = lists_set c"
  by (simp_all add: iter_lock_upd_def split: option.splits)

lemma relock_same [simp]:
  "same_keys c (fst (snd (btree_node_relock ok c iter l)))"
  "lists_set (fst (snd (btree_node_relock ok c iter l))) = lists_set c"
  by (simp_all add: btree_node_relock_def)

lemma node_get_tail_same [simp]:
  "same_keys c (fst (snd (node_get_tail c iter b t)))"
  "lists_set (fst (snd (node_get_tail c iter b t))) = lists_set c"
  by (simp_all add: node_get_tail_def)

lemma mca_inv_drop_parent:
  "mca_inv c \<Longrightarrow> mca_inv (fst (drop_parent_read_lock c iter l))"
  by (rule mca_inv_same_keys[where c = c]) simp_all

lemma mca_inv_relock:
  "mca_inv c \<Longrightarrow> mca_inv (fst (snd (btree_node_relock ok c iter l)))"
  by (rule mca_inv_same_keys[where c = c]) simp_all

lemma mca_inv_get_tail:
  "mca_inv c \<Longrightarrow> mca_inv (fst (snd (node_get_tail c iter b t)))"
  by (rule mca_inv_same_keys[where c = c]) simp_all

lemma bch_btree_node_get_inv:
  assumes kz: "PTR_HASH k \<noteq> 0" and kd: "extent_is_data k"
  shows "mca_inv c \<Longrightarrow> get_post (bch_btree_node_get es md current c iter k lvl t)"
proof (induction es arbitrary: c iter)
  case Nil
  show ?case by (simp add: get_post_def)
next
  case (Cons e es)
  note inv = Cons.prems
  show ?case
  proof (cases "md \<le> unat lvl")
    case True
    then show ?thesis by (simp add: get_post_def)
  next
    case nd: False
    show ?thesis
    proof (cases "mca_find c k")
      case None
      have fp: "fill_post k (bch_btree_node_fill current e c iter k lvl t)"
        by (rule bch_btree_node_fill_post[OF inv kz kd])
      show ?thesis
      proof (cases "bch_btree_node_fill current e c iter k lvl t")
        case (Inl f)
        then show ?thesis using nd None by (simp add: get_post_def)
      next
        case (Inr r)
        obtain fr c' iter' where r: "r = (fr, c', iter')" by (cases r) auto
        show ?thesis
        proof (cases fr)
          case (Fill_node b)
          then have i: "mca_inv c'" using fp Inr r by (simp add: fill_post_def)
          have "mca_inv (fst (snd (node_get_tail c' iter' b t)))"
            using i by (rule mca_inv_get_tail)
          then show ?thesis using nd None Inr r Fill_node by (simp add: get_post_def)
        next
          case (Fill_raced b)
          then have i: "mca_inv c'" using fp Inr r by (simp add: fill_post_def)
          from Cons.IH[OF i, of iter'] show ?thesis
            using nd None Inr r Fill_raced by simp
        next
          case (Fill_error er)
          then have i: "mca_inv c'" using fp Inr r by (simp add: fill_post_def)
          then show ?thesis using nd None Inr r Fill_error by (simp add: get_post_def)
        qed
      qed
    next
      case (Some b)
      define c1 where "c1 = fst (drop_parent_read_lock c iter (unat lvl))"
      define iter1 where "iter1 = snd (drop_parent_read_lock c iter (unat lvl))"
      define c2 where "c2 = lock_upd b (six_lock_type t) c1"
      define c3 where "c3 = lock_upd b (six_unlock_type t) c2"
      define r where "r = btree_node_relock (relock_ok e) c3 iter1 (unat lvl + 1)"
      have i1: "mca_inv c1" unfolding c1_def using inv by (rule mca_inv_drop_parent)
      have i2: "mca_inv c2" unfolding c2_def using i1 by (rule mca_inv_lock_upd)
      have i3: "mca_inv c3" unfolding c3_def using i2 by (rule mca_inv_lock_upd)
      have i4: "mca_inv (fst (snd r))" unfolding r_def using i3 by (rule mca_inv_relock)
      have it: "mca_inv (fst (snd (node_get_tail c2 iter1 b t)))"
        using i2 by (rule mca_inv_get_tail)
      have ih: "get_post (bch_btree_node_get es md current (fst (snd r)) (snd (snd r)) k lvl t)"
        by (rule Cons.IH[OF i4])
      have eq: "bch_btree_node_get (e # es) md current c iter k lvl t =
         (if \<not> lock_ok e then Some (Inr (Inl EINTR, c1, iter1))
          else if PTR_HASH (key (nodes c2 b)) \<noteq> PTR_HASH k
                  \<or> ucast (level (nodes c2 b)) \<noteq> lvl \<or> race_fault e
          then (if fst r
                then bch_btree_node_get es md current (fst (snd r)) (snd (snd r)) k lvl t
                else Some (Inr (Inl EINTR, fst (snd r), snd (snd r))))
          else Some (Inr (node_get_tail c2 iter1 b t)))"
        using nd Some by (simp add: Let_def c1_def iter1_def c2_def c3_def r_def)
      show ?thesis unfolding eq using i1 i4 it ih by (simp add: get_post_def)
    qed
  qed
qed

lemma mca_inv_init: "mca_inv init_cache_set"
  by (simp add: mca_inv_def hash_inv_def table_wf_def keys_wf_def lists_wf_def lists_set_def
      init_cache_set_def mca_find_def)

lemma mca_inv_example: "mca_inv example_cache_set"
  by (auto simp: mca_inv_def hash_inv_def table_wf_def keys_wf_def lists_wf_def lists_set_def
      example_cache_set_def mca_find_def idle_btree_def zeroed_btree_def PTR_HASH_def)

lemma mca_inv_hashed: "mca_inv hashed_cache_set"
proof -
  have tab: "btree_cache_table hashed_cache_set = [0x1001 \<mapsto> 1]"
    by (simp add: hashed_cache_set_def)
  have hp: "heap_next hashed_cache_set = 20"
    by (simp add: hashed_cache_set_def example_cache_set_def)
  have kn: "PTR_HASH (key (nodes hashed_cache_set n)) = (if n = 1 then 0x1001 else 0)" for n
    by (simp add: hashed_cache_set_def example_cache_set_def example_key_def PTR_HASH_def
        idle_btree_def zeroed_btree_def)
  have kd: "extent_is_data (key (nodes hashed_cache_set 1))"
    by (simp add: hashed_cache_set_def example_key_def)
  have ls: "lists_set hashed_cache_set = {1, 2, 3, 10, 11, 12, 13, 14}"
    by (auto simp: lists_set_def hashed_cache_set_def example_cache_set_def)
  have "hash_inv hashed_cache_set"
    unfolding hash_inv_def mca_find_ex tab kn by (auto split: if_splits)
  moreover have "table_wf hashed_cache_set"
    unfolding table_wf_def tab kn hp by (auto split: if_splits)
  moreover have "keys_wf hashed_cache_set"
    unfolding keys_wf_def kn using kd by (auto split: if_splits)
  moreover have "lists_wf hashed_cache_set"
    unfolding lists_wf_def ls hp by auto
  ultimately show ?thesis by (simp add: mca_inv_def)
qed

lemma hashed_lookup: "mca_find hashed_cache_set example_key = Some 1"
  by (simp add: mca_find_def hashed_cache_set_def example_key_def PTR_HASH_def)

lemma hashed_remove_run: "map_sum id (\<lambda>c'. (PTR_HASH (key (nodes c' 1)), mca_find c' example_key))
          (mca_hash_remove hashed_cache_set 1) = Inr (0, None)"
  by code_simp

lemma hashed_fill_run: "map_sum id (\<lambda>x. (fst x, PTR_HASH (key (nodes (fst (snd x)) 10)),
                 mca_find (fst (snd x)) example_key, btree_cache_freeable (fst (snd x))))
          (bch_btree_node_fill 0 example_get_env hashed_cache_set example_iter example_key 0
             SIX_LOCK_read) = Inr (Fill_raced 10, 0, Some 1, [10, 11, 12, 13, 14])"
  by code_simp

lemma example_fill_run: "map_sum id (\<lambda>x. (fst x, PTR_HASH (key (nodes (fst (snd x)) 10)),
                 mca_find (fst (snd x)) example_key))
          (bch_btree_node_fill 0 example_get_env example_cache_set example_iter example_key 0
             SIX_LOCK_read) = Inr (Fill_node 10, 0x1001, Some 10)"
  by code_simp


text \<open>
  C2: the invariant of the hash table. The cache set as it is initialised satisfies
  \<open>mca_inv\<close>, and \<open>mca_inv\<close> contains \<open>hash_inv\<close>: a node of the cache is found by
  some lookup if and only if the first u64 of its key's value is not 0. Every operation of
  the node cache that returns (without hitting a \<open>BUG_ON\<close>) leaves a state that satisfies
  \<open>mca_inv\<close> again: \<open>mca_hash_remove\<close>, the shrinker scan, \<open>mca_alloc\<close> (with
  \<open>mca_cannibalize\<close>), \<open>bch_btree_node_fill\<close> (with \<open>mca_hash_insert\<close>) and
  \<open>bch_btree_node_get\<close>, the last two for a search key that is a pointer to a node: an
  extent whose first word is not 0. After \<open>mca_hash_remove\<close>, and after
  \<open>bch_btree_node_fill\<close> lost the race for the table slot, the word of the node is 0 and
  no lookup, for whatever key, returns the node; a fill that wins leaves the node where
  a lookup of its key finds it.
\<close>

theorem node_cache_hash_invariant:
  "mca_inv init_cache_set
   \<and> (mca_inv c \<longrightarrow>
        hash_inv c
      \<and> (\<forall>c'. mca_hash_remove c b = Inr c' \<longrightarrow>
             mca_inv c' \<and> PTR_HASH (key (nodes c' b)) = 0 \<and> (\<forall>k'. mca_find c' k' \<noteq> Some b))
      \<and> (\<forall>out. bch_mca_scan c sc = Inr out \<longrightarrow> mca_inv (scan_cs out))
      \<and> (\<forall>ob c'. mca_alloc current aenv c = Inr (ob, c') \<longrightarrow> mca_inv c')
      \<and> (PTR_HASH k \<noteq> 0 \<and> extent_is_data k \<longrightarrow>
            (\<forall>r c' iter'.
                bch_btree_node_fill current env c iter k lvl t = Inr (r, c', iter') \<longrightarrow>
                  mca_inv c'
                \<and> (\<forall>n. r = Fill_node n \<longrightarrow> mca_find c' k = Some n)
                \<and> (\<forall>n. r = Fill_raced n \<longrightarrow>
                       PTR_HASH (key (nodes c' n)) = 0 \<and> (\<forall>k'. mca_find c' k' \<noteq> Some n)))
          \<and> (\<forall>r c' iter'.
                bch_btree_node_get es max_depth current c iter k lvl t = Some (Inr (r, c', iter'))
                  \<longrightarrow> mca_inv c')))"
proof (intro conjI impI allI)
  show "mca_inv init_cache_set" by (rule mca_inv_init)
next
  assume "mca_inv c"
  then show "hash_inv c" by (simp add: mca_inv_def)
next
  fix c' assume inv: "mca_inv c" and r: "mca_hash_remove c b = Inr c'"
  note x = mca_hash_remove_inv[OF inv r]
  show "mca_inv c'" using x by simp
  show "PTR_HASH (key (nodes c' b)) = 0" using x by simp
  fix k' show "mca_find c' k' \<noteq> Some b" using x by simp
next
  fix out assume inv: "mca_inv c" and r: "bch_mca_scan c sc = Inr out"
  show "mca_inv (scan_cs out)" using bch_mca_scan_inv[OF inv, of sc] r by simp
next
  fix ob c' assume inv: "mca_inv c" and r: "mca_alloc current aenv c = Inr (ob, c')"
  show "mca_inv c'" using mca_alloc_post[OF inv, of current aenv] r
    by (cases ob) (simp_all add: alloc_post_def)
next
  fix r c' iter'
  assume inv: "mca_inv c" and k: "PTR_HASH k \<noteq> 0 \<and> extent_is_data k"
    and f: "bch_btree_node_fill current env c iter k lvl t = Inr (r, c', iter')"
  have fp: "fill_post k (Inr (r, c', iter'))"
    using bch_btree_node_fill_post[OF inv, of k current env iter lvl t] k f by simp
  show "mca_inv c'" using fp by (cases r) (simp_all add: fill_post_def)
  { fix n assume "r = Fill_node n"
    then show "mca_find c' k = Some n" using fp by (simp add: fill_post_def) }
  { fix n assume rn: "r = Fill_raced n"
    then show "PTR_HASH (key (nodes c' n)) = 0" using fp by (simp add: fill_post_def)
    fix k' show "mca_find c' k' \<noteq> Some n" using fp rn by (simp add: fill_post_def) }
next
  fix r c' iter'
  assume inv: "mca_inv c" and k: "PTR_HASH k \<noteq> 0 \<and> extent_is_data k"
    and g: "bch_btree_node_get es max_depth current c iter k lvl t = Some (Inr (r, c', iter'))"
  from k have kz: "PTR_HASH k \<noteq> 0" and kd: "extent_is_data k" by simp_all
  show "mca_inv c'"
    using bch_btree_node_get_inv[OF kz kd inv, of es max_depth current iter lvl t] g
    by (simp add: get_post_def)
qed

text \<open>
  The theorem at the cache set with node 1 hashed: removing node 1 from the table, a fill
  for the same key that loses the race with node 10, and at the example cache set a fill
  that wins.
\<close>

theorem node_cache_hash_invariant_witness:
  "mca_inv hashed_cache_set
   \<and> PTR_HASH example_key \<noteq> 0 \<and> extent_is_data example_key
   \<and> hash_inv hashed_cache_set
   \<and> mca_find hashed_cache_set example_key = Some 1
   \<and> (case mca_hash_remove hashed_cache_set 1 of
         Inl _ \<Rightarrow> False
       | Inr c' \<Rightarrow> mca_inv c' \<and> PTR_HASH (key (nodes c' 1)) = 0
                  \<and> (\<forall>k'. mca_find c' k' \<noteq> Some 1))
   \<and> (case bch_btree_node_fill 0 example_get_env hashed_cache_set example_iter example_key 0
              SIX_LOCK_read of
         Inr (Fill_raced n, c', _) \<Rightarrow>
           n = 10 \<and> mca_inv c' \<and> PTR_HASH (key (nodes c' 10)) = 0
           \<and> (\<forall>k'. mca_find c' k' \<noteq> Some 10) \<and> mca_find c' example_key = Some 1
       | _ \<Rightarrow> False)
   \<and> (case bch_btree_node_fill 0 example_get_env example_cache_set example_iter example_key 0
              SIX_LOCK_read of
         Inr (Fill_node n, c', _) \<Rightarrow> n = 10 \<and> mca_inv c' \<and> mca_find c' example_key = Some 10
       | _ \<Rightarrow> False)"
proof -
  have ih: "mca_inv hashed_cache_set" by (rule mca_inv_hashed)
  have ie: "mca_inv example_cache_set" by (rule mca_inv_example)
  have k: "PTR_HASH example_key \<noteq> 0 \<and> extent_is_data example_key"
    by (simp add: example_key_def PTR_HASH_def)
  note th = node_cache_hash_invariant[of hashed_cache_set 1 example_sc 0
      "alloc example_get_env" example_key example_get_env example_iter 0 SIX_LOCK_read "[]" 0,
      THEN conjunct2, THEN mp, OF ih]
  note te = node_cache_hash_invariant[of example_cache_set 1 example_sc 0
      "alloc example_get_env" example_key example_get_env example_iter 0 SIX_LOCK_read "[]" 0,
      THEN conjunct2, THEN mp, OF ie]
  note th_fill = th[THEN conjunct2, THEN conjunct2, THEN conjunct2, THEN conjunct2, THEN mp,
      OF k, THEN conjunct1, THEN spec, THEN spec, THEN spec, THEN mp]
  note te_fill = te[THEN conjunct2, THEN conjunct2, THEN conjunct2, THEN conjunct2, THEN mp,
      OF k, THEN conjunct1, THEN spec, THEN spec, THEN spec, THEN mp]
  have hi: "hash_inv hashed_cache_set" by (rule th[THEN conjunct1])
  have f: "mca_find hashed_cache_set example_key = Some 1" by (rule hashed_lookup)
  obtain c1 where r1: "mca_hash_remove hashed_cache_set 1 = Inr c1"
  proof (cases "mca_hash_remove hashed_cache_set 1")
    case (Inl x)
    then show ?thesis using hashed_remove_run by simp
  next
    case (Inr x)
    then show ?thesis by (rule that)
  qed
  have p1: "mca_inv c1 \<and> PTR_HASH (key (nodes c1 1)) = 0 \<and> (\<forall>k'. mca_find c1 k' \<noteq> Some 1)"
    by (rule th[THEN conjunct2, THEN conjunct1, THEN spec, THEN mp, OF r1])
  define x2 where "x2 = bch_btree_node_fill 0 example_get_env hashed_cache_set example_iter
        example_key 0 SIX_LOCK_read"
  have run2: "map_sum id (\<lambda>x. (fst x, PTR_HASH (key (nodes (fst (snd x)) 10)),
                 mca_find (fst (snd x)) example_key, btree_cache_freeable (fst (snd x)))) x2
           = Inr (Fill_raced 10, 0, Some 1, [10, 11, 12, 13, 14])"
    unfolding x2_def by (rule hashed_fill_run)
  obtain c2 i2 where r2: "x2 = Inr (Fill_raced 10, c2, i2)"
      and f2: "mca_find c2 example_key = Some 1"
  proof (cases x2)
    case (Inl x)
    then show ?thesis using run2 by simp
  next
    case (Inr y)
    obtain a c i where y: "y = (a, c, i)" by (cases y) auto
    from run2 Inr y have "a = Fill_raced 10" and "mca_find c example_key = Some 1" by simp_all
    then show ?thesis using Inr y that by simp
  qed
  have p2': "mca_inv c2
      \<and> (\<forall>n. Fill_raced 10 = Fill_node n \<longrightarrow> mca_find c2 example_key = Some n)
      \<and> (\<forall>n. Fill_raced 10 = Fill_raced n \<longrightarrow>
             PTR_HASH (key (nodes c2 n)) = 0 \<and> (\<forall>k'. mca_find c2 k' \<noteq> Some n))"
    by (rule th_fill[OF r2[unfolded x2_def]])
  then have p2: "mca_inv c2 \<and> PTR_HASH (key (nodes c2 10)) = 0
      \<and> (\<forall>k'. mca_find c2 k' \<noteq> Some 10)"
    by simp
  define x3 where "x3 = bch_btree_node_fill 0 example_get_env example_cache_set example_iter
        example_key 0 SIX_LOCK_read"
  have run3: "map_sum id (\<lambda>x. (fst x, PTR_HASH (key (nodes (fst (snd x)) 10)),
                 mca_find (fst (snd x)) example_key)) x3
           = Inr (Fill_node 10, 0x1001, Some 10)"
    unfolding x3_def by (rule example_fill_run)
  obtain c3 i3 where r3: "x3 = Inr (Fill_node 10, c3, i3)"
  proof (cases x3)
    case (Inl x)
    then show ?thesis using run3 by simp
  next
    case (Inr y)
    obtain a c i where y: "y = (a, c, i)" by (cases y) auto
    from run3 Inr y have "a = Fill_node 10" by simp
    then show ?thesis using Inr y that by simp
  qed
  have p3': "mca_inv c3
      \<and> (\<forall>n. Fill_node 10 = Fill_node n \<longrightarrow> mca_find c3 example_key = Some n)
      \<and> (\<forall>n. Fill_node 10 = Fill_raced n \<longrightarrow>
             PTR_HASH (key (nodes c3 n)) = 0 \<and> (\<forall>k'. mca_find c3 k' \<noteq> Some n))"
    by (rule te_fill[OF r3[unfolded x3_def]])
  then have p3: "mca_inv c3 \<and> mca_find c3 example_key = Some 10" by simp
  have q1: "case mca_hash_remove hashed_cache_set 1 of
         Inl _ \<Rightarrow> False
       | Inr c' \<Rightarrow> mca_inv c' \<and> PTR_HASH (key (nodes c' 1)) = 0
                  \<and> (\<forall>k'. mca_find c' k' \<noteq> Some 1)"
    unfolding r1 using p1 by simp
  have q2: "case x2 of
         Inr (Fill_raced n, c', _) \<Rightarrow>
           n = 10 \<and> mca_inv c' \<and> PTR_HASH (key (nodes c' 10)) = 0
           \<and> (\<forall>k'. mca_find c' k' \<noteq> Some 10) \<and> mca_find c' example_key = Some 1
       | _ \<Rightarrow> False"
    unfolding r2 using p2 f2 by simp
  have q3: "case x3 of
         Inr (Fill_node n, c', _) \<Rightarrow> n = 10 \<and> mca_inv c' \<and> mca_find c' example_key = Some 10
       | _ \<Rightarrow> False"
    unfolding r3 using p3 by simp
  show ?thesis
    by (intro conjI)
       (rule ih k[THEN conjunct1] k[THEN conjunct2] hi f q1 q2[unfolded x2_def]
          q3[unfolded x3_def])+
qed

end
